theory Spec2Isabelle
  imports Main "HOL-Library.Multiset" "HOL-Library.Product_Lexorder"
begin

section \<open>Data model\<close>

text \<open>
  A shallow embedding of \<^verbatim>\<open>wordsearch.cpp\<close>: the placement check, the write, the overlap
  scorer, the candidate ranking, the recursive search and the entry function
  \<^verbatim>\<open>generateWordSearch\<close>. The command line, the reading of words and the JSON output of
  \<^verbatim>\<open>main\<close> are not modelled.

  The grid is a \<^verbatim>\<open>vector<string>\<close>: a list of rows, each a list of characters. The empty
  cell is the character \<^verbatim>\<open>'.'\<close>. Coordinates and steps are C++ \<^verbatim>\<open>int\<close>; they are modelled
  as mathematical integers: a coordinate is only advanced after it passed the bounds check,
  and a step is one of the eight unit vectors, so no value the program computes leaves the
  range of \<^verbatim>\<open>int\<close>. Sizes and indices into the word list are natural numbers.
\<close>

type_synonym Grid = "string list"

record WordPlacement =
  word :: string
  row :: int
  col :: int
  delta_row :: int
  delta_col :: int

record PuzzleResult =
  grid :: Grid
  placements :: "WordPlacement list"
  placed_words :: "string list"
  unplaced_words :: "string list"
  num_placed :: int
  total_overlap_score :: int

text \<open>The eight directions, in the order of the source's table.\<close>

definition DIRECTIONS :: "(int \<times> int) list" where
  "DIRECTIONS = [(0, 1), (0, -1), (1, 0), (-1, 0), (1, 1), (1, -1), (-1, 1), (-1, -1)]"

text \<open>
  \<^verbatim>\<open>GRID_ROWS\<close> and \<^verbatim>\<open>GRID_COLS\<close> are global variables of the source, set once by
  \<^verbatim>\<open>generateWordSearch\<close>; every function that reads them takes them as its first arguments.
\<close>

definition isInBounds :: "int \<Rightarrow> int \<Rightarrow> int \<Rightarrow> int \<Rightarrow> bool" where
  "isInBounds GRID_ROWS GRID_COLS r c \<longleftrightarrow> r \<ge> 0 \<and> r < GRID_ROWS \<and> c \<ge> 0 \<and> c < GRID_COLS"

text \<open>
  \<^verbatim>\<open>grid[r][c]\<close>, read and written; the same indexing serves the scorer's
  \<^verbatim>\<open>vector<vector<int>>\<close>. The source indexes without a range check of its own (out of
  range is undefined behaviour in C++); a grid that has \<^verbatim>\<open>GRID_ROWS\<close> rows of
  \<^verbatim>\<open>GRID_COLS\<close> cells each makes every index that passed \<open>isInBounds\<close> a valid one.
\<close>

definition cell :: "'a list list \<Rightarrow> int \<Rightarrow> int \<Rightarrow> 'a" where
  "cell g r c = g ! nat r ! nat c"

definition set_cell :: "'a list list \<Rightarrow> int \<Rightarrow> int \<Rightarrow> 'a \<Rightarrow> 'a list list" where
  "set_cell g r c ch = g[nat r := (g ! nat r)[nat c := ch]]"

definition wf_grid :: "int \<Rightarrow> int \<Rightarrow> 'a list list \<Rightarrow> bool" where
  "wf_grid GRID_ROWS GRID_COLS g \<longleftrightarrow>
     int (length g) = GRID_ROWS \<and> (\<forall>line \<in> set g. int (length line) = GRID_COLS)"

section \<open>Grid validation and placement\<close>

text \<open>
  \<^verbatim>\<open>canPlaceWord\<close>: the loop over the characters of the word, with the running position and
  the running overlap count; the result is the returned flag and the value left in the
  reference parameter \<^verbatim>\<open>overlap_count\<close>. The grid is a \<^verbatim>\<open>const\<close> reference: the function
  has nothing to write it with, and the model returns no grid.
\<close>

fun canPlaceWord_loop ::
  "int \<Rightarrow> int \<Rightarrow> Grid \<Rightarrow> string \<Rightarrow> int \<Rightarrow> int \<Rightarrow> int \<Rightarrow> int \<Rightarrow> int \<Rightarrow> bool \<times> int" where
  "canPlaceWord_loop GRID_ROWS GRID_COLS g [] r c dr dc overlap_count = (True, overlap_count)"
| "canPlaceWord_loop GRID_ROWS GRID_COLS g (ch # rest) r c dr dc overlap_count =
     (if \<not> isInBounds GRID_ROWS GRID_COLS r c then (False, overlap_count)
      else let existing = cell g r c in
        if existing \<noteq> CHR ''.'' \<and> existing \<noteq> ch then (False, overlap_count)
        else canPlaceWord_loop GRID_ROWS GRID_COLS g rest (r + dr) (c + dc) dr dc
               (if existing = ch then overlap_count + 1 else overlap_count))"

definition canPlaceWord ::
  "int \<Rightarrow> int \<Rightarrow> Grid \<Rightarrow> string \<Rightarrow> int \<Rightarrow> int \<Rightarrow> int \<Rightarrow> int \<Rightarrow> bool \<times> int" where
  "canPlaceWord GRID_ROWS GRID_COLS g w r c dr dc =
     canPlaceWord_loop GRID_ROWS GRID_COLS g w r c dr dc 0"

text \<open>\<^verbatim>\<open>placeWord\<close>: writes the word into the grid, one cell per character, with no check.\<close>

fun placeWord :: "Grid \<Rightarrow> string \<Rightarrow> int \<Rightarrow> int \<Rightarrow> int \<Rightarrow> int \<Rightarrow> Grid" where
  "placeWord g [] r c dr dc = g"
| "placeWord g (ch # rest) r c dr dc = placeWord (set_cell g r c ch) rest (r + dr) (c + dc) dr dc"

section \<open>Overlap scoring\<close>

text \<open>
  \<^verbatim>\<open>calculateOverlapScore\<close>. \<open>mark_cells\<close> is the inner loop over the characters of one
  placement (a cell out of bounds is skipped, as the source does); \<open>mark_placements\<close> the
  loop over the placements; \<open>sum_overlaps\<close> the two nested loops over the finished map.
  An empty placement list returns 0 before any map is built.
\<close>

fun mark_cells ::
  "int \<Rightarrow> int \<Rightarrow> string \<Rightarrow> int \<Rightarrow> int \<Rightarrow> int \<Rightarrow> int \<Rightarrow> int list list \<Rightarrow> int list list" where
  "mark_cells GRID_ROWS GRID_COLS [] rr cc dr dc overlap_map = overlap_map"
| "mark_cells GRID_ROWS GRID_COLS (ch # rest) rr cc dr dc overlap_map =
     mark_cells GRID_ROWS GRID_COLS rest (rr + dr) (cc + dc) dr dc
       (if isInBounds GRID_ROWS GRID_COLS rr cc
        then set_cell overlap_map rr cc (cell overlap_map rr cc + 1)
        else overlap_map)"

definition mark_placements ::
  "int \<Rightarrow> int \<Rightarrow> WordPlacement list \<Rightarrow> int list list \<Rightarrow> int list list" where
  "mark_placements GRID_ROWS GRID_COLS ps overlap_map =
     fold (\<lambda>p. mark_cells GRID_ROWS GRID_COLS (word p) (row p) (col p) (delta_row p) (delta_col p))
       ps overlap_map"

definition sum_overlaps :: "int \<Rightarrow> int \<Rightarrow> int list list \<Rightarrow> int" where
  "sum_overlaps GRID_ROWS GRID_COLS overlap_map =
     fold (\<lambda>r. fold (\<lambda>c overlap_score.
                  if cell overlap_map r c > 1 then overlap_score + (cell overlap_map r c - 1)
                  else overlap_score) [0..GRID_COLS - 1])
       [0..GRID_ROWS - 1] 0"

definition calculateOverlapScore :: "int \<Rightarrow> int \<Rightarrow> WordPlacement list \<Rightarrow> int" where
  "calculateOverlapScore GRID_ROWS GRID_COLS ps =
     (if ps = [] then 0
      else sum_overlaps GRID_ROWS GRID_COLS
             (mark_placements GRID_ROWS GRID_COLS ps
                (replicate (nat GRID_ROWS) (replicate (nat GRID_COLS) 0))))"

text \<open>
  The recount the specification compares the scorer with: \<open>cells_of\<close> lists the cells a
  placement occupies, start + k * direction for k below the word's length;
  \<open>usage_count\<close> is the number of placement cells that fall on a grid cell; the recount sums
  max(0, usage - 1) over the cells of the grid.
\<close>

definition cells_of :: "WordPlacement \<Rightarrow> (int \<times> int) list" where
  "cells_of p =
     map (\<lambda>k. (row p + int k * delta_row p, col p + int k * delta_col p)) [0..<length (word p)]"

definition usage_count :: "WordPlacement list \<Rightarrow> int \<Rightarrow> int \<Rightarrow> int" where
  "usage_count ps i j = int (count_list (concat (map cells_of ps)) (i, j))"

definition direct_recount :: "int \<Rightarrow> int \<Rightarrow> WordPlacement list \<Rightarrow> int" where
  "direct_recount GRID_ROWS GRID_COLS ps =
     (\<Sum>i = 0..<GRID_ROWS. \<Sum>j = 0..<GRID_COLS. max 0 (usage_count ps i j - 1))"

section \<open>Candidates and their ranking\<close>

text \<open>
  The local \<^verbatim>\<open>struct Candidate { int r, c, dr, dc, overlap; }\<close>; the fields carry the
  prefix \<open>cand_\<close>. \<open>generate_candidates\<close> is the triple loop over rows, columns and
  \<open>DIRECTIONS\<close> that keeps the tuples \<open>canPlaceWord\<close> accepts, with the overlap count
  it reports. \<open>candidate_less\<close> is the comparator passed to the sort; \<^verbatim>\<open>GRID_ROWS/2\<close> is
  a division of a non-negative \<^verbatim>\<open>int\<close>.
\<close>

record Candidate =
  cand_r :: int
  cand_c :: int
  cand_dr :: int
  cand_dc :: int
  cand_overlap :: int

definition generate_candidates :: "int \<Rightarrow> int \<Rightarrow> Grid \<Rightarrow> string \<Rightarrow> Candidate list" where
  "generate_candidates GRID_ROWS GRID_COLS g current_word =
     [\<lparr>cand_r = r, cand_c = c, cand_dr = fst dir, cand_dc = snd dir,
       cand_overlap = snd (canPlaceWord GRID_ROWS GRID_COLS g current_word r c (fst dir) (snd dir))\<rparr>.
        r \<leftarrow> [0..GRID_ROWS - 1], c \<leftarrow> [0..GRID_COLS - 1], dir \<leftarrow> DIRECTIONS,
        fst (canPlaceWord GRID_ROWS GRID_COLS g current_word r c (fst dir) (snd dir))]"

definition center_distance :: "int \<Rightarrow> int \<Rightarrow> Candidate \<Rightarrow> int" where
  "center_distance GRID_ROWS GRID_COLS a =
     \<bar>cand_r a - GRID_ROWS div 2\<bar> + \<bar>cand_c a - GRID_COLS div 2\<bar>"

definition candidate_less :: "int \<Rightarrow> int \<Rightarrow> Candidate \<Rightarrow> Candidate \<Rightarrow> bool" where
  "candidate_less GRID_ROWS GRID_COLS a b =
     (if cand_overlap a \<noteq> cand_overlap b then cand_overlap a > cand_overlap b
      else center_distance GRID_ROWS GRID_COLS a < center_distance GRID_ROWS GRID_COLS b)"

text \<open>
  The candidates are ranked with \<^verbatim>\<open>std::sort\<close>, a library function. Its contract: for a
  comparator that is a strict weak order, the result is a permutation of the input in which
  no element is less than one before it. The order of equivalent elements is unspecified.
  The search takes the sort as a parameter \<open>srt\<close>, and the theorems assume of it this
  contract only.
\<close>

definition strict_weak_order :: "('a \<Rightarrow> 'a \<Rightarrow> bool) \<Rightarrow> bool" where
  "strict_weak_order cmp \<longleftrightarrow>
     (\<forall>x. \<not> cmp x x) \<and>
     (\<forall>x y z. cmp x y \<and> cmp y z \<longrightarrow> cmp x z) \<and>
     (\<forall>x y z. \<not> cmp x y \<and> \<not> cmp y x \<and> \<not> cmp y z \<and> \<not> cmp z y \<longrightarrow>
                \<not> cmp x z \<and> \<not> cmp z x)"

definition std_sort_contract :: "(('a \<Rightarrow> 'a \<Rightarrow> bool) \<Rightarrow> 'a list \<Rightarrow> 'a list) \<Rightarrow> bool" where
  "std_sort_contract srt \<longleftrightarrow>
     (\<forall>cmp xs. strict_weak_order cmp \<longrightarrow>
        mset (srt cmp xs) = mset xs \<and> sorted_wrt (\<lambda>a b. \<not> cmp b a) (srt cmp xs))"

text \<open>
  Two sorts that meet the contract, to run the search on concrete inputs: an insertion
  sort, which keeps equivalent elements in their input order, and the same sort applied to
  the reversed input, which does not.
\<close>

fun insert_by :: "('a \<Rightarrow> 'a \<Rightarrow> bool) \<Rightarrow> 'a \<Rightarrow> 'a list \<Rightarrow> 'a list" where
  "insert_by cmp x [] = [x]"
| "insert_by cmp x (y # ys) = (if cmp y x then y # insert_by cmp x ys else x # y # ys)"

definition insertion_sort :: "('a \<Rightarrow> 'a \<Rightarrow> bool) \<Rightarrow> 'a list \<Rightarrow> 'a list" where
  "insertion_sort cmp xs = foldr (insert_by cmp) xs []"

definition reversing_sort :: "('a \<Rightarrow> 'a \<Rightarrow> bool) \<Rightarrow> 'a list \<Rightarrow> 'a list" where
  "reversing_sort cmp xs = insertion_sort cmp (rev xs)"

type_synonym sort_fn = "(Candidate \<Rightarrow> Candidate \<Rightarrow> bool) \<Rightarrow> Candidate list \<Rightarrow> Candidate list"

definition ranked_candidates :: "sort_fn \<Rightarrow> int \<Rightarrow> int \<Rightarrow> Grid \<Rightarrow> string \<Rightarrow> Candidate list" where
  "ranked_candidates srt GRID_ROWS GRID_COLS g current_word =
     srt (candidate_less GRID_ROWS GRID_COLS)
       (generate_candidates GRID_ROWS GRID_COLS g current_word)"

section \<open>The recursive search\<close>

text \<open>
  The state \<^verbatim>\<open>solvePuzzleRecursively\<close> works on through its reference parameters:
  \<^verbatim>\<open>best_result\<close>, \<^verbatim>\<open>current_placements\<close> and \<^verbatim>\<open>used_flags\<close>, and the number of times the
  clock has been read so far. The clock is the environment: \<open>elapsed_ms n\<close> is the value
  \<^verbatim>\<open>hasTimedOut\<close> computes for \<^verbatim>\<open>elapsed_ms\<close> at its n-th call (counting from 0), and
  \<open>clock_read\<close> records that one more call was made.
\<close>

record SolverState =
  best_result :: PuzzleResult
  current_placements :: "WordPlacement list"
  used_flags :: "bool list"
  clock_reads :: nat

definition hasTimedOut :: "int \<Rightarrow> (nat \<Rightarrow> int) \<Rightarrow> SolverState \<Rightarrow> bool" where
  "hasTimedOut MAX_RUNTIME_MS elapsed_ms s \<longleftrightarrow> elapsed_ms (clock_reads s) \<ge> MAX_RUNTIME_MS"

definition clock_read :: "SolverState \<Rightarrow> SolverState" where
  "clock_read s = s\<lparr>clock_reads := Suc (clock_reads s)\<rparr>"

text \<open>The block under \<^verbatim>\<open>// Update best solution\<close>.\<close>

definition update_best :: "int \<Rightarrow> int \<Rightarrow> Grid \<Rightarrow> SolverState \<Rightarrow> SolverState" where
  "update_best placed_count current_overlap g s =
     (if placed_count > num_placed (best_result s) \<or>
         (placed_count = num_placed (best_result s) \<and>
          current_overlap > total_overlap_score (best_result s))
      then s\<lparr>best_result := (best_result s)\<lparr>num_placed := placed_count,
               total_overlap_score := current_overlap, grid := g,
               placements := current_placements s\<rparr>\<rparr>
      else s)"

text \<open>
  \<^verbatim>\<open>solvePuzzleRecursively\<close>, with the loop over the ranked candidates as
  \<open>try_candidates\<close>. A \<^verbatim>\<open>return\<close> inside the loop leaves the whole function, so the code
  after the loop (the branch that skips the word) is the loop's case for the empty list.
  \<open>word_order\<close> holds indices into \<open>words\<close>, as \<^verbatim>\<open>generateWordSearch\<close> builds it.
  The recursion ends: each call moves to the next index or to a shorter candidate list.
\<close>

function solvePuzzleRecursively ::
    "sort_fn \<Rightarrow> (nat \<Rightarrow> int) \<Rightarrow> int \<Rightarrow> int \<Rightarrow> int \<Rightarrow> string list \<Rightarrow> nat list \<Rightarrow> nat \<Rightarrow> Grid \<Rightarrow>
     SolverState \<Rightarrow> SolverState"
  and try_candidates ::
    "sort_fn \<Rightarrow> (nat \<Rightarrow> int) \<Rightarrow> int \<Rightarrow> int \<Rightarrow> int \<Rightarrow> string list \<Rightarrow> nat list \<Rightarrow> nat \<Rightarrow> Grid \<Rightarrow>
     Candidate list \<Rightarrow> SolverState \<Rightarrow> SolverState"
where
  "solvePuzzleRecursively srt elapsed_ms MAX_RUNTIME_MS GRID_ROWS GRID_COLS words word_order
     current_index g s =
     (if hasTimedOut MAX_RUNTIME_MS elapsed_ms s then clock_read s
      else let s0 = clock_read s;
               placed_count = int (length (current_placements s0));
               current_overlap = calculateOverlapScore GRID_ROWS GRID_COLS (current_placements s0);
               s1 = update_best placed_count current_overlap g s0
        in if current_index \<ge> length word_order then s1
           else let remaining = int (length word_order) - int current_index
             in if placed_count + remaining \<le> num_placed (best_result s1) then s1
                else try_candidates srt elapsed_ms MAX_RUNTIME_MS GRID_ROWS GRID_COLS words
                       word_order current_index g
                       (ranked_candidates srt GRID_ROWS GRID_COLS g
                          (words ! (word_order ! current_index)))
                       s1)"
| "try_candidates srt elapsed_ms MAX_RUNTIME_MS GRID_ROWS GRID_COLS words word_order
     current_index g [] s =
     (if \<not> hasTimedOut MAX_RUNTIME_MS elapsed_ms s
      then solvePuzzleRecursively srt elapsed_ms MAX_RUNTIME_MS GRID_ROWS GRID_COLS words
             word_order (current_index + 1) g (clock_read s)
      else clock_read s)"
| "try_candidates srt elapsed_ms MAX_RUNTIME_MS GRID_ROWS GRID_COLS words word_order
     current_index g (cand # rest) s =
     (if hasTimedOut MAX_RUNTIME_MS elapsed_ms s then clock_read s
      else let word_index = word_order ! current_index;
               current_word = words ! word_index;
               new_grid = placeWord g current_word (cand_r cand) (cand_c cand)
                            (cand_dr cand) (cand_dc cand);
               s1 = (clock_read s)\<lparr>current_placements := current_placements s @
                       [\<lparr>word = current_word, row = cand_r cand, col = cand_c cand,
                         delta_row = cand_dr cand, delta_col = cand_dc cand\<rparr>],
                     used_flags := (used_flags s)[word_index := True]\<rparr>;
               s2 = solvePuzzleRecursively srt elapsed_ms MAX_RUNTIME_MS GRID_ROWS GRID_COLS
                      words word_order (current_index + 1) new_grid s1;
               s3 = s2\<lparr>used_flags := (used_flags s2)[word_index := False],
                       current_placements := butlast (current_placements s2)\<rparr>
        in try_candidates srt elapsed_ms MAX_RUNTIME_MS GRID_ROWS GRID_COLS words word_order
             current_index g rest s3)"
  by pat_completeness auto
termination
  by (relation "measures
        [case_sum (\<lambda>(srt, clk, lim, R, C, ws, ord, idx, g, s). 2 * (length ord + 1 - idx))
                  (\<lambda>(srt, clk, lim, R, C, ws, ord, idx, g, cs, s). 2 * (length ord - idx) + 1),
         case_sum (\<lambda>_. 0) (\<lambda>(srt, clk, lim, R, C, ws, ord, idx, g, cs, s). length cs)]")
    auto

declare solvePuzzleRecursively.simps [simp del]

declare try_candidates.simps [simp del]

section \<open>The entry function\<close>

text \<open>
  \<^verbatim>\<open>generateWordSearch\<close> can fail in two ways the source does not handle: the constructor of
  \<^verbatim>\<open>blank_grid\<close> throws for a negative count, and an index outside a vector is undefined
  behaviour. Both are results of the model.
\<close>

datatype failure = LengthError | OutOfRange

text \<open>
  The word order: two passes, the required words and then the others, each pass sorting the
  pairs (length, index) with \<^verbatim>\<open>greater<>\<close> and appending the indices. The pairs of one pass
  are pairwise different and \<^verbatim>\<open>greater<>\<close> orders them totally, so every sort that meets
  the contract of \<^verbatim>\<open>std::sort\<close> returns the same list, the pairs in decreasing order
  (lemma \<open>std_sort_greater_unique\<close>).
\<close>

definition order_pass :: "string list \<Rightarrow> bool list \<Rightarrow> nat \<Rightarrow> nat list" where
  "order_pass words required_flags pass =
     map snd (rev (sort [(length (words ! i), i). i \<leftarrow> [0..<length words],
                          (pass = 0) = (required_flags ! i)]))"

definition word_order_of :: "string list \<Rightarrow> bool list \<Rightarrow> nat list" where
  "word_order_of words required_flags =
     order_pass words required_flags 0 @ order_pass words required_flags 1"

text \<open>
  The fill under \<^verbatim>\<open>// Fill remaining cells randomly\<close>: the cells in row-major order, each
  read with \<^verbatim>\<open>best_result.grid[r][c]\<close>; \<open>dist n\<close> is the n-th value drawn from
  \<^verbatim>\<open>uniform_int_distribution<int>(0, 25)\<close>, and \<open>fill_letter d\<close> is \<^verbatim>\<open>char('A' + d)\<close>.
\<close>

definition fill_letter :: "nat \<Rightarrow> char" where
  "fill_letter d = char_of (of_char (CHR ''A'') + d)"

definition cells_row_major :: "int \<Rightarrow> int \<Rightarrow> (nat \<times> nat) list" where
  "cells_row_major rows cols = [(r, c). r \<leftarrow> [0..<nat rows], c \<leftarrow> [0..<nat cols]]"

fun fill_remaining :: "(nat \<Rightarrow> nat) \<Rightarrow> (nat \<times> nat) list \<Rightarrow> Grid \<Rightarrow> nat \<Rightarrow> failure + Grid" where
  "fill_remaining dist [] g n = Inr g"
| "fill_remaining dist ((r, c) # rest) g n =
     (if r < length g \<and> c < length (g ! r)
      then if g ! r ! c = CHR ''.''
           then fill_remaining dist rest
                  (g[r := (g ! r)[c := fill_letter (dist n)]]) (Suc n)
           else fill_remaining dist rest g n
      else Inl OutOfRange)"

text \<open>
  The default-constructed \<^verbatim>\<open>PuzzleResult\<close> and the state of the first call. \<open>search_best\<close>
  is \<^verbatim>\<open>generateWordSearch\<close> up to the return of the search; \<open>generateWordSearch\<close> then
  sorts the words into placed and unplaced, fills the grid and returns.
\<close>

definition initial_result :: PuzzleResult where
  "initial_result = \<lparr>grid = [], placements = [], placed_words = [], unplaced_words = [],
                      num_placed = 0, total_overlap_score = 0\<rparr>"

definition initial_state :: "nat \<Rightarrow> SolverState" where
  "initial_state n = \<lparr>best_result = initial_result, current_placements = [],
                       used_flags = replicate n False, clock_reads = 0\<rparr>"

definition search_best ::
  "sort_fn \<Rightarrow> (nat \<Rightarrow> int) \<Rightarrow> string list \<Rightarrow> bool list \<Rightarrow> int \<Rightarrow> int \<Rightarrow> int \<Rightarrow> PuzzleResult" where
  "search_best srt elapsed_ms words required_flags rows cols runtime_ms =
     (let blank_grid = replicate (nat rows) (replicate (nat cols) CHR ''.'');
          word_order = word_order_of words required_flags
      in best_result
           (solvePuzzleRecursively srt elapsed_ms runtime_ms rows cols words word_order 0
              blank_grid (initial_state (length words))))"

definition generateWordSearch ::
  "sort_fn \<Rightarrow> (nat \<Rightarrow> int) \<Rightarrow> (nat \<Rightarrow> nat) \<Rightarrow> string list \<Rightarrow> bool list \<Rightarrow> int \<Rightarrow> int \<Rightarrow> int \<Rightarrow>
   failure + PuzzleResult" where
  "generateWordSearch srt elapsed_ms dist words required_flags rows cols runtime_ms =
     (if rows < 0 \<or> cols < 0 then Inl LengthError
      else if length required_flags < length words then Inl OutOfRange
      else let best = search_best srt elapsed_ms words required_flags rows cols runtime_ms;
               placed_set = set (map word (placements best));
               best = best\<lparr>placed_words := filter (\<lambda>w. w \<in> placed_set) words,
                           unplaced_words := filter (\<lambda>w. w \<notin> placed_set) words\<rparr>
        in case fill_remaining dist (cells_row_major rows cols) (grid best) 0 of
             Inl e \<Rightarrow> Inl e
           | Inr g \<Rightarrow> Inr (best\<lparr>grid := g\<rparr>))"

section \<open>Notions used in the statements and proofs\<close>

text \<open>
  Names for the pieces of one call of the search: the state after the deadline check and the
  update of the best (\<open>entered\<close>), the two tests that end the call (\<open>pruned\<close>), the
  placement and the grid of a candidate, and the state pushed before and popped after the
  recursive call.
\<close>

definition entered :: "int \<Rightarrow> int \<Rightarrow> Grid \<Rightarrow> SolverState \<Rightarrow> SolverState" where
  "entered R C g s =
     update_best (int (length (current_placements (clock_read s))))
       (calculateOverlapScore R C (current_placements (clock_read s))) g (clock_read s)"

definition pruned :: "nat list \<Rightarrow> nat \<Rightarrow> SolverState \<Rightarrow> bool" where
  "pruned ord idx s \<longleftrightarrow>
     length ord \<le> idx \<or>
     int (length (current_placements s)) + (int (length ord) - int idx)
       \<le> num_placed (best_result s)"

definition placement_of :: "string \<Rightarrow> Candidate \<Rightarrow> WordPlacement" where
  "placement_of w cand =
     \<lparr>word = w, row = cand_r cand, col = cand_c cand,
      delta_row = cand_dr cand, delta_col = cand_dc cand\<rparr>"

definition placed_grid :: "Grid \<Rightarrow> string \<Rightarrow> Candidate \<Rightarrow> Grid" where
  "placed_grid g w cand = placeWord g w (cand_r cand) (cand_c cand) (cand_dr cand) (cand_dc cand)"

definition pushed :: "nat \<Rightarrow> WordPlacement \<Rightarrow> SolverState \<Rightarrow> SolverState" where
  "pushed wi p s =
     (clock_read s)\<lparr>current_placements := current_placements s @ [p],
                    used_flags := (used_flags s)[wi := True]\<rparr>"

definition popped :: "nat \<Rightarrow> SolverState \<Rightarrow> SolverState" where
  "popped wi s =
     s\<lparr>used_flags := (used_flags s)[wi := False],
       current_placements := butlast (current_placements s)\<rparr>"

text \<open>
  The pair the best solution is compared by, under the lexicographic order of pairs, and
  the relation between two values of the recorded best: unchanged, or strictly greater.
\<close>

definition result_key :: "PuzzleResult \<Rightarrow> int \<times> int" where
  "result_key b = (num_placed b, total_overlap_score b)"

definition best_advances :: "PuzzleResult \<Rightarrow> PuzzleResult \<Rightarrow> bool" where
  "best_advances a b \<longleftrightarrow> b = a \<or> result_key a < result_key b"

text \<open>
  Stability of a ranking: for every element, the elements equivalent to it stand in the
  ranked list in the same order as in the enumeration.
\<close>

definition keeps_enumeration_order :: "('a \<Rightarrow> 'a \<Rightarrow> bool) \<Rightarrow> 'a list \<Rightarrow> 'a list \<Rightarrow> bool" where
  "keeps_enumeration_order cmp enumerated ranked \<longleftrightarrow>
     (\<forall>x \<in> set enumerated.
        filter (\<lambda>y. \<not> cmp x y \<and> \<not> cmp y x) ranked =
        filter (\<lambda>y. \<not> cmp x y \<and> \<not> cmp y x) enumerated)"

text \<open>
  What the search keeps true of a grid and the placements written on it: every placement
  cell is in bounds and every cell no placement covers is empty (\<open>grid_cover\<close>), and every
  placement cell holds the placement's letter (\<open>grid_letters\<close>). \<open>best_ok\<close> and
  \<open>best_counts\<close> say the same of the recorded best, which starts with an empty grid.
\<close>

definition feasible :: "int \<Rightarrow> int \<Rightarrow> Grid \<Rightarrow> string \<Rightarrow> Candidate \<Rightarrow> bool" where
  "feasible R C g w cand \<longleftrightarrow>
     fst (canPlaceWord R C g w (cand_r cand) (cand_c cand) (cand_dr cand) (cand_dc cand)) \<and>
     (cand_dr cand, cand_dc cand) \<in> set DIRECTIONS"

definition covered :: "WordPlacement list \<Rightarrow> int \<Rightarrow> int \<Rightarrow> bool" where
  "covered ps i j \<longleftrightarrow> (\<exists>p \<in> set ps. (i, j) \<in> set (cells_of p))"

definition grid_cover :: "int \<Rightarrow> int \<Rightarrow> Grid \<Rightarrow> WordPlacement list \<Rightarrow> bool" where
  "grid_cover R C g ps \<longleftrightarrow>
     wf_grid R C g \<and>
     (\<forall>p \<in> set ps. \<forall>k < length (word p).
        isInBounds R C (row p + int k * delta_row p) (col p + int k * delta_col p)) \<and>
     (\<forall>i j. isInBounds R C i j \<and> \<not> covered ps i j \<longrightarrow> cell g i j = CHR ''.'')"

definition grid_letters :: "Grid \<Rightarrow> WordPlacement list \<Rightarrow> bool" where
  "grid_letters g ps \<longleftrightarrow>
     (\<forall>p \<in> set ps. CHR ''.'' \<notin> set (word p) \<and>
        (\<forall>k < length (word p).
           cell g (row p + int k * delta_row p) (col p + int k * delta_col p) = word p ! k))"

definition placement_preserves ::
  "(Grid \<Rightarrow> WordPlacement list \<Rightarrow> bool) \<Rightarrow> int \<Rightarrow> int \<Rightarrow> string list \<Rightarrow> bool" where
  "placement_preserves J R C ws \<longleftrightarrow>
     (\<forall>g ps w cand. J g ps \<and> w \<in> set ws \<and> feasible R C g w cand \<longrightarrow>
        J (placed_grid g w cand) (ps @ [placement_of w cand]))"

definition best_ok :: "(Grid \<Rightarrow> WordPlacement list \<Rightarrow> bool) \<Rightarrow> PuzzleResult \<Rightarrow> bool" where
  "best_ok J b \<longleftrightarrow> J (grid b) (placements b) \<or> (grid b = [] \<and> placements b = [])"

definition best_counts :: "int \<Rightarrow> int \<Rightarrow> PuzzleResult \<Rightarrow> bool" where
  "best_counts R C b \<longleftrightarrow>
     num_placed b = int (length (placements b)) \<and>
     total_overlap_score b = calculateOverlapScore R C (placements b)"

section \<open>Properties of the feasibility check and of the write\<close>

lemma all_less_Suc_shift: "(\<forall>k<Suc n. P k) \<longleftrightarrow> P 0 \<and> (\<forall>k<n. P (Suc k))"
  using less_Suc_eq_0_disj by auto

lemma upt_Suc_shift: "[0..<Suc n] = 0 # map Suc [0..<n]"
  by (simp add: upt_conv_Cons map_Suc_upt del: upt_Suc)

lemma step_shift: "r + dr + int k * dr = r + int (Suc k) * dr"
  by (simp add: algebra_simps)

lemma canPlaceWord_loop_flag:
  "fst (canPlaceWord_loop R C g w r c dr dc n) \<longleftrightarrow>
     (\<forall>k<length w. isInBounds R C (r + int k * dr) (c + int k * dc) \<and>
        (cell g (r + int k * dr) (c + int k * dc) = CHR ''.'' \<or>
         cell g (r + int k * dr) (c + int k * dc) = w ! k))"
proof (induction w arbitrary: r c n)
  case Nil
  show ?case by simp
next
  case (Cons ch rest)
  show ?case
    unfolding length_Cons all_less_Suc_shift
    by (simp add: Cons.IH Let_def step_shift del: of_nat_Suc)
qed

lemma canPlaceWord_loop_count:
  "fst (canPlaceWord_loop R C g w r c dr dc n) \<Longrightarrow>
   snd (canPlaceWord_loop R C g w r c dr dc n) =
     n + int (length (filter (\<lambda>k. cell g (r + int k * dr) (c + int k * dc) = w ! k) [0..<length w]))"
proof (induction w arbitrary: r c n)
  case Nil
  show ?case by simp
next
  case (Cons ch rest)
  from Cons.prems have inb: "isInBounds R C r c"
    and ok: "\<not> (cell g r c \<noteq> CHR ''.'' \<and> cell g r c \<noteq> ch)"
    by (auto simp: Let_def split: if_splits)
  let ?n' = "if cell g r c = ch then n + 1 else n"
  from Cons.prems inb ok
  have rest_ok: "fst (canPlaceWord_loop R C g rest (r + dr) (c + dc) dr dc ?n')"
    by (simp add: Let_def)
  have "snd (canPlaceWord_loop R C g (ch # rest) r c dr dc n) =
        snd (canPlaceWord_loop R C g rest (r + dr) (c + dc) dr dc ?n')"
    using inb ok by (auto simp: Let_def)
  also have "\<dots> = ?n' + int (length (filter
       (\<lambda>k. cell g (r + dr + int k * dr) (c + dc + int k * dc) = rest ! k) [0..<length rest]))"
    by (rule Cons.IH [OF rest_ok])
  finally show ?case
    unfolding length_Cons upt_Suc_shift
    by (simp add: filter_map comp_def step_shift del: of_nat_Suc upt_Suc)
qed

lemma wf_grid_set_cell: "wf_grid R C g \<Longrightarrow> wf_grid R C (set_cell g r c ch)"
proof (cases "nat r < length g")
  case True
  assume wf: "wf_grid R C g"
  from True have "g ! nat r \<in> set g" by simp
  with wf have "int (length ((g ! nat r)[nat c := ch])) = C"
    by (simp add: wf_grid_def)
  with wf show ?thesis
    unfolding wf_grid_def set_cell_def
    by (auto dest: set_update_subset_insert [THEN subsetD])
next
  case False
  assume "wf_grid R C g"
  with False show ?thesis by (simp add: set_cell_def list_update_beyond not_less)
qed

lemma cell_set_cell:
  "wf_grid R C g \<Longrightarrow> isInBounds R C r c \<Longrightarrow> isInBounds R C i j \<Longrightarrow>
   cell (set_cell g r c ch) i j = (if i = r \<and> j = c then ch else cell g i j)"
proof -
  assume wf: "wf_grid R C g" and rc: "isInBounds R C r c" and ij: "isInBounds R C i j"
  from wf rc have r: "nat r < length g" by (auto simp: wf_grid_def isInBounds_def)
  then have "g ! nat r \<in> set g" by simp
  with wf rc have c: "nat c < length (g ! nat r)" by (auto simp: wf_grid_def isInBounds_def)
  from rc ij have "nat i = nat r \<longleftrightarrow> i = r" and "nat j = nat c \<longleftrightarrow> j = c"
    by (auto simp: isInBounds_def)
  with r c show ?thesis
    by (auto simp add: set_cell_def cell_def nth_list_update)
qed

lemma wf_grid_placeWord: "wf_grid R C g \<Longrightarrow> wf_grid R C (placeWord g w r c dr dc)"
  by (induction w arbitrary: g r c) (simp_all add: wf_grid_set_cell)

lemma placeWord_other:
  "wf_grid R C g \<Longrightarrow>
   \<forall>k<length w. isInBounds R C (r + int k * dr) (c + int k * dc) \<Longrightarrow>
   isInBounds R C i j \<Longrightarrow>
   \<forall>k<length w. \<not> (i = r + int k * dr \<and> j = c + int k * dc) \<Longrightarrow>
   cell (placeWord g w r c dr dc) i j = cell g i j"
proof (induction w arbitrary: g r c)
  case Nil
  show ?case by simp
next
  case (Cons ch rest)
  from Cons.prems(2) have inb0: "isInBounds R C r c"
    and inbs: "\<forall>k<length rest. isInBounds R C (r + dr + int k * dr) (c + dc + int k * dc)"
    unfolding length_Cons all_less_Suc_shift step_shift by simp_all
  from Cons.prems(4) have ne0: "\<not> (i = r \<and> j = c)"
    and nes: "\<forall>k<length rest. \<not> (i = r + dr + int k * dr \<and> j = c + dc + int k * dc)"
    unfolding length_Cons all_less_Suc_shift step_shift by simp_all
  have "cell (placeWord (set_cell g r c ch) rest (r + dr) (c + dc) dr dc) i j =
        cell (set_cell g r c ch) i j"
    by (rule Cons.IH [OF wf_grid_set_cell [OF Cons.prems(1)] inbs Cons.prems(3) nes])
  also have "\<dots> = cell g i j"
    using cell_set_cell [OF Cons.prems(1) inb0 Cons.prems(3)] ne0 by simp
  finally show ?case by simp
qed

lemma step_nonzero:
  "(dr, dc) \<noteq> (0, 0) \<Longrightarrow> \<not> (r = r + dr + int k * dr \<and> c = c + dc + int k * dc)"
proof
  assume nz: "(dr, dc) \<noteq> (0, 0)"
    and eq: "r = r + dr + int k * dr \<and> c = c + dc + int k * dc"
  from eq have "(1 + int k) * dr = 0" and "(1 + int k) * dc = 0"
    by (simp_all add: algebra_simps)
  then have "dr = 0" and "dc = 0" by simp_all
  with nz show False by simp
qed

lemma placeWord_written:
  "wf_grid R C g \<Longrightarrow>
   \<forall>k<length w. isInBounds R C (r + int k * dr) (c + int k * dc) \<Longrightarrow>
   (dr, dc) \<noteq> (0, 0) \<Longrightarrow> k < length w \<Longrightarrow>
   cell (placeWord g w r c dr dc) (r + int k * dr) (c + int k * dc) = w ! k"
proof (induction w arbitrary: g r c k)
  case Nil
  then show ?case by simp
next
  case (Cons ch rest)
  from Cons.prems(2) have inb0: "isInBounds R C r c"
    and inbs: "\<forall>k<length rest. isInBounds R C (r + dr + int k * dr) (c + dc + int k * dc)"
    unfolding length_Cons all_less_Suc_shift step_shift by simp_all
  note wf' = wf_grid_set_cell [OF Cons.prems(1), of r c ch]
  show ?case
  proof (cases k)
    case 0
    have "cell (placeWord (set_cell g r c ch) rest (r + dr) (c + dc) dr dc) r c =
          cell (set_cell g r c ch) r c"
      using step_nonzero [OF Cons.prems(3)]
      by (intro placeWord_other [OF wf' inbs inb0]) simp
    also have "\<dots> = ch"
      using cell_set_cell [OF Cons.prems(1) inb0 inb0] by simp
    finally show ?thesis using 0 by simp
  next
    case (Suc k')
    with Cons.prems(4) have k': "k' < length rest" by simp
    have "cell (placeWord (set_cell g r c ch) rest (r + dr) (c + dc) dr dc)
            (r + dr + int k' * dr) (c + dc + int k' * dc) = rest ! k'"
      by (rule Cons.IH [OF wf' inbs Cons.prems(3) k'])
    then show ?thesis
      unfolding Suc step_shift by simp
  qed
qed

text \<open>
  C2. On a grid of the configured dimensions, \<open>canPlaceWord\<close> returns true exactly when every
  cell start + k * (dr, dc), k below the word's length, is in bounds and holds either the
  empty sentinel or the word's k-th letter; when it returns true, the overlap count it
  reports is the number of those cells whose letter already equals the word's k-th letter.
  The function reads the grid only (it is passed by \<^verbatim>\<open>const\<close> reference and the model
  returns the flag and the count alone).
\<close>

theorem canPlaceWord_correct:
  "wf_grid GRID_ROWS GRID_COLS g \<Longrightarrow>
   (fst (canPlaceWord GRID_ROWS GRID_COLS g w r c dr dc) \<longleftrightarrow>
      (\<forall>k<length w. isInBounds GRID_ROWS GRID_COLS (r + int k * dr) (c + int k * dc) \<and>
         (cell g (r + int k * dr) (c + int k * dc) = CHR ''.'' \<or>
          cell g (r + int k * dr) (c + int k * dc) = w ! k))) \<and>
   (fst (canPlaceWord GRID_ROWS GRID_COLS g w r c dr dc) \<longrightarrow>
      snd (canPlaceWord GRID_ROWS GRID_COLS g w r c dr dc) =
        int (length (filter (\<lambda>k. cell g (r + int k * dr) (c + int k * dc) = w ! k)
               [0..<length w])))"
  unfolding canPlaceWord_def
  using canPlaceWord_loop_flag [of GRID_ROWS GRID_COLS g w r c dr dc 0]
    canPlaceWord_loop_count [of GRID_ROWS GRID_COLS g w r c dr dc 0]
  by simp

theorem canPlaceWord_correct_witness:
  "wf_grid 2 3 [''C..'', ''...''] \<and>
   fst (canPlaceWord 2 3 [''C..'', ''...''] ''CA'' 0 0 0 1) \<and>
   snd (canPlaceWord 2 3 [''C..'', ''...''] ''CA'' 0 0 0 1) = 1"
proof -
  have wf: "wf_grid 2 3 [''C..'', ''...'']"
    by (simp add: wf_grid_def)
  have ok: "fst (canPlaceWord 2 3 [''C..'', ''...''] ''CA'' 0 0 0 1)"
    by (simp add: canPlaceWord_def isInBounds_def cell_def)
  from canPlaceWord_correct [OF wf, of "''CA''" 0 0 0 1] ok
  have "snd (canPlaceWord 2 3 [''C..'', ''...''] ''CA'' 0 0 0 1) =
        int (length (filter (\<lambda>k. cell [''C..'', ''...''] (0 + int k * 0) (0 + int k * 1) = ''CA'' ! k)
               [0..<length ''CA'']))"
    by blast
  also have "\<dots> = 1"
    by (simp add: cell_def upt_rec)
  finally show ?thesis using wf ok by simp
qed

text \<open>
  C10. For a word that passed \<open>canPlaceWord\<close> on a grid of the configured dimensions, in a
  direction other than the null step, \<open>placeWord\<close> leaves the k-th letter of the word in
  the cell start + k * (dr, dc), for every k below the word's length, and every other cell of
  the grid as it was; the grid keeps its dimensions.
\<close>

theorem placeWord_frame:
  "wf_grid GRID_ROWS GRID_COLS g \<Longrightarrow>
   fst (canPlaceWord GRID_ROWS GRID_COLS g w r c dr dc) \<Longrightarrow>
   (dr, dc) \<noteq> (0, 0) \<Longrightarrow>
   wf_grid GRID_ROWS GRID_COLS (placeWord g w r c dr dc) \<and>
   (\<forall>k<length w. cell (placeWord g w r c dr dc) (r + int k * dr) (c + int k * dc) = w ! k) \<and>
   (\<forall>i j. isInBounds GRID_ROWS GRID_COLS i j \<and>
          (\<forall>k<length w. \<not> (i = r + int k * dr \<and> j = c + int k * dc)) \<longrightarrow>
          cell (placeWord g w r c dr dc) i j = cell g i j)"
proof -
  assume wf: "wf_grid GRID_ROWS GRID_COLS g"
    and ok: "fst (canPlaceWord GRID_ROWS GRID_COLS g w r c dr dc)"
    and nz: "(dr, dc) \<noteq> (0, 0)"
  from ok have inb: "\<forall>k<length w. isInBounds GRID_ROWS GRID_COLS (r + int k * dr) (c + int k * dc)"
    unfolding canPlaceWord_def canPlaceWord_loop_flag by blast
  show ?thesis
    using wf_grid_placeWord [OF wf] placeWord_written [OF wf inb nz] placeWord_other [OF wf inb]
    by blast
qed

theorem placeWord_frame_witness:
  "wf_grid 1 3 [''C..''] \<and>
   fst (canPlaceWord 1 3 [''C..''] ''CA'' 0 0 0 1) \<and>
   ((0, 1) :: int \<times> int) \<noteq> (0, 0) \<and>
   placeWord [''C..''] ''CA'' 0 0 0 1 = [''CA.''] \<and>
   cell (placeWord [''C..''] ''CA'' 0 0 0 1) 0 2 = cell [''C..''] 0 2"
proof -
  have wf: "wf_grid 1 3 [''C..'']"
    by (simp add: wf_grid_def)
  have ok: "fst (canPlaceWord 1 3 [''C..''] ''CA'' 0 0 0 1)"
    by (simp add: canPlaceWord_def isInBounds_def cell_def)
  have nz: "((0, 1) :: int \<times> int) \<noteq> (0, 0)"
    by simp
  have inb: "isInBounds 1 3 0 2 \<and> (\<forall>k<length ''CA''. \<not> ((0::int) = 0 + int k * 0 \<and> (2::int) = 0 + int k * 1))"
    by (simp add: isInBounds_def)
  from placeWord_frame [OF wf ok nz] inb
  have "cell (placeWord [''C..''] ''CA'' 0 0 0 1) 0 2 = cell [''C..''] 0 2"
    by blast
  moreover have "placeWord [''C..''] ''CA'' 0 0 0 1 = [''CA.'']"
    by (simp add: set_cell_def)
  ultimately show ?thesis using wf ok nz by blast
qed

section \<open>The scorer against a direct recount\<close>

lemma line_cells_Suc:
  "map (\<lambda>k. (r + int k * dr, c + int k * dc)) [0..<Suc n] =
   (r, c) # map (\<lambda>k. (r + dr + int k * dr, c + dc + int k * dc)) [0..<n]"
  unfolding upt_Suc_shift by (simp add: comp_def step_shift del: of_nat_Suc)

lemma wf_grid_mark_cells:
  "wf_grid R C m \<Longrightarrow> wf_grid R C (mark_cells R C w rr cc dr dc m)"
  by (induction w arbitrary: rr cc m) (simp_all add: wf_grid_set_cell)

lemma mark_cells_cell:
  "wf_grid R C m \<Longrightarrow> isInBounds R C i j \<Longrightarrow>
   cell (mark_cells R C w rr cc dr dc m) i j =
     cell m i j +
     int (count_list (map (\<lambda>k. (rr + int k * dr, cc + int k * dc)) [0..<length w]) (i, j))"
proof (induction w arbitrary: rr cc m)
  case Nil
  show ?case by simp
next
  case (Cons ch rest)
  let ?m' = "if isInBounds R C rr cc then set_cell m rr cc (cell m rr cc + 1) else m"
  have wf': "wf_grid R C ?m'"
    using Cons.prems(1) by (simp add: wf_grid_set_cell)
  have here: "cell ?m' i j = cell m i j + (if (rr, cc) = (i, j) then 1 else 0)"
  proof (cases "isInBounds R C rr cc")
    case True
    then show ?thesis
      using cell_set_cell [OF Cons.prems(1) True Cons.prems(2)] by auto
  next
    case False
    with Cons.prems(2) have "(rr, cc) \<noteq> (i, j)" by auto
    with False show ?thesis by simp
  qed
  have "cell (mark_cells R C (ch # rest) rr cc dr dc m) i j =
        cell (mark_cells R C rest (rr + dr) (cc + dc) dr dc ?m') i j"
    by simp
  also have "\<dots> = cell ?m' i j +
      int (count_list (map (\<lambda>k. (rr + dr + int k * dr, cc + dc + int k * dc)) [0..<length rest]) (i, j))"
    by (rule Cons.IH [OF wf' Cons.prems(2)])
  finally show ?case
    unfolding length_Cons line_cells_Suc here by simp
qed

lemma wf_grid_mark_placements:
  "wf_grid R C m \<Longrightarrow> wf_grid R C (mark_placements R C ps m)"
  unfolding mark_placements_def
  by (induction ps arbitrary: m) (simp_all add: wf_grid_mark_cells)

lemma usage_count_Cons:
  "usage_count (p # ps) i j = int (count_list (cells_of p) (i, j)) + usage_count ps i j"
  by (simp add: usage_count_def)

lemma mark_placements_cell:
  "wf_grid R C m \<Longrightarrow> isInBounds R C i j \<Longrightarrow>
   cell (mark_placements R C ps m) i j = cell m i j + usage_count ps i j"
proof (induction ps arbitrary: m)
  case Nil
  show ?case by (simp add: mark_placements_def usage_count_def)
next
  case (Cons p ps)
  let ?m' = "mark_cells R C (word p) (row p) (col p) (delta_row p) (delta_col p) m"
  have "cell (mark_placements R C (p # ps) m) i j = cell (mark_placements R C ps ?m') i j"
    by (simp add: mark_placements_def)
  also have "\<dots> = cell ?m' i j + usage_count ps i j"
    by (rule Cons.IH [OF wf_grid_mark_cells [OF Cons.prems(1)] Cons.prems(2)])
  also have "cell ?m' i j = cell m i j + int (count_list (cells_of p) (i, j))"
    unfolding cells_of_def by (rule mark_cells_cell [OF Cons.prems])
  finally show ?case
    by (simp add: usage_count_Cons)
qed

lemma wf_grid_replicate:
  "0 \<le> R \<Longrightarrow> 0 \<le> C \<Longrightarrow> wf_grid R C (replicate (nat R) (replicate (nat C) x))"
  by (simp add: wf_grid_def)

lemma cell_replicate:
  "isInBounds R C i j \<Longrightarrow> cell (replicate (nat R) (replicate (nat C) x)) i j = x"
  by (simp add: cell_def isInBounds_def)

lemma fold_add_sum_list:
  "fold (\<lambda>x (acc::int). if f x > 1 then acc + (f x - 1) else acc) xs a =
   a + sum_list (map (\<lambda>x. max 0 (f x - 1)) xs)"
  by (induction xs arbitrary: a) auto

lemma sum_list_upto: "sum_list (map f [0..n - 1]) = (\<Sum>i = 0..<(n::int). f i)"
proof -
  have "sum_list (map f [0..n - 1]) = sum f (set [0..n - 1])"
    by (rule sum_list_distinct_conv_sum_set) simp
  also have "set [0..n - 1] = {0..<n}" by auto
  finally show ?thesis .
qed

lemma fold_rows_sum_list:
  "fold (\<lambda>x. fold (\<lambda>c (acc::int). if f x c > 1 then acc + (f x c - 1) else acc) cs) xs a =
   a + sum_list (map (\<lambda>x. sum_list (map (\<lambda>c. max 0 (f x c - 1)) cs)) xs)"
  by (induction xs arbitrary: a) (simp_all add: fold_add_sum_list)

lemma sum_overlaps_sum:
  "sum_overlaps R C m = (\<Sum>i = 0..<R. \<Sum>j = 0..<C. max 0 (cell m i j - 1))"
  unfolding sum_overlaps_def fold_rows_sum_list sum_list_upto by simp

lemma calculateOverlapScore_recount:
  assumes "0 \<le> R" and "0 \<le> C"
  shows "calculateOverlapScore R C ps = direct_recount R C ps"
proof (cases "ps = []")
  case True
  then show ?thesis
    by (simp add: calculateOverlapScore_def direct_recount_def usage_count_def)
next
  case False
  let ?m0 = "replicate (nat R) (replicate (nat C) (0::int))"
  have wf: "wf_grid R C ?m0"
    using assms by (rule wf_grid_replicate)
  have "cell (mark_placements R C ps ?m0) i j = usage_count ps i j"
    if "i \<in> {0..<R}" "j \<in> {0..<C}" for i j
  proof -
    from that have inb: "isInBounds R C i j" by (simp add: isInBounds_def)
    show ?thesis
      using mark_placements_cell [OF wf inb, of ps] cell_replicate [OF inb, of "0::int"] by simp
  qed
  then have "(\<Sum>i = 0..<R. \<Sum>j = 0..<C. max 0 (cell (mark_placements R C ps ?m0) i j - 1)) =
             (\<Sum>i = 0..<R. \<Sum>j = 0..<C. max 0 (usage_count ps i j - 1))"
    by (intro sum.cong refl) simp
  with False show ?thesis
    by (simp add: calculateOverlapScore_def direct_recount_def sum_overlaps_sum)
qed

section \<open>One call of the search, in pieces\<close>

lemma best_result_clock_read [simp]: "best_result (clock_read s) = best_result s"
  by (simp add: clock_read_def)

lemma current_placements_clock_read [simp]:
  "current_placements (clock_read s) = current_placements s"
  by (simp add: clock_read_def)

lemma current_placements_update_best [simp]:
  "current_placements (update_best pc ov g s) = current_placements s"
  by (simp add: update_best_def)

lemma current_placements_entered [simp]:
  "current_placements (entered R C g s) = current_placements s"
  by (simp add: entered_def)

lemma best_result_pushed [simp]: "best_result (pushed wi p s) = best_result s"
  by (simp add: pushed_def)

lemma current_placements_pushed [simp]:
  "current_placements (pushed wi p s) = current_placements s @ [p]"
  by (simp add: pushed_def)

lemma best_result_popped [simp]: "best_result (popped wi s) = best_result s"
  by (simp add: popped_def)

lemma current_placements_popped [simp]:
  "current_placements (popped wi s) = butlast (current_placements s)"
  by (simp add: popped_def)

lemma solve_timed_out:
  "hasTimedOut lim clk s \<Longrightarrow>
   solvePuzzleRecursively srt clk lim R C ws ord idx g s = clock_read s"
  by (simp add: solvePuzzleRecursively.simps)

lemma solve_pruned:
  "\<not> hasTimedOut lim clk s \<Longrightarrow> pruned ord idx (entered R C g s) \<Longrightarrow>
   solvePuzzleRecursively srt clk lim R C ws ord idx g s = entered R C g s"
  by (auto simp: solvePuzzleRecursively.simps Let_def pruned_def entered_def)

lemma solve_branch:
  "\<not> hasTimedOut lim clk s \<Longrightarrow> \<not> pruned ord idx (entered R C g s) \<Longrightarrow>
   solvePuzzleRecursively srt clk lim R C ws ord idx g s =
     try_candidates srt clk lim R C ws ord idx g
       (ranked_candidates srt R C g (ws ! (ord ! idx))) (entered R C g s)"
  by (auto simp: solvePuzzleRecursively.simps Let_def pruned_def entered_def)

lemma try_timed_out:
  "hasTimedOut lim clk s \<Longrightarrow>
   try_candidates srt clk lim R C ws ord idx g cs s = clock_read s"
  by (cases cs) (simp_all add: try_candidates.simps)

lemma try_skip:
  "\<not> hasTimedOut lim clk s \<Longrightarrow>
   try_candidates srt clk lim R C ws ord idx g [] s =
     solvePuzzleRecursively srt clk lim R C ws ord (idx + 1) g (clock_read s)"
  by (simp add: try_candidates.simps)

lemma try_place:
  "\<not> hasTimedOut lim clk s \<Longrightarrow>
   try_candidates srt clk lim R C ws ord idx g (cand # rest) s =
     try_candidates srt clk lim R C ws ord idx g rest
       (popped (ord ! idx)
          (solvePuzzleRecursively srt clk lim R C ws ord (idx + 1)
             (placed_grid g (ws ! (ord ! idx)) cand)
             (pushed (ord ! idx) (placement_of (ws ! (ord ! idx)) cand) s)))"
  by (simp add: try_candidates.simps Let_def popped_def pushed_def placement_of_def placed_grid_def)

lemmas search_simps = solve_timed_out solve_pruned solve_branch try_timed_out try_skip try_place

lemma search_induct [case_names solve skip place]:
  assumes solve: "\<And>srt clk lim R C ws ord idx g s.
      (\<not> hasTimedOut lim clk s \<Longrightarrow> \<not> pruned ord idx (entered R C g s) \<Longrightarrow>
         Q srt clk lim R C ws ord idx g (ranked_candidates srt R C g (ws ! (ord ! idx)))
           (entered R C g s)) \<Longrightarrow>
      P srt clk lim R C ws ord idx g s"
    and skip: "\<And>srt clk lim R C ws ord idx g s.
      (\<not> hasTimedOut lim clk s \<Longrightarrow> P srt clk lim R C ws ord (idx + 1) g (clock_read s)) \<Longrightarrow>
      Q srt clk lim R C ws ord idx g [] s"
    and place: "\<And>srt clk lim R C ws ord idx g cand rest s.
      (\<not> hasTimedOut lim clk s \<Longrightarrow>
         P srt clk lim R C ws ord (idx + 1) (placed_grid g (ws ! (ord ! idx)) cand)
           (pushed (ord ! idx) (placement_of (ws ! (ord ! idx)) cand) s)) \<Longrightarrow>
      (\<not> hasTimedOut lim clk s \<Longrightarrow>
         Q srt clk lim R C ws ord idx g rest
           (popped (ord ! idx)
              (solvePuzzleRecursively srt clk lim R C ws ord (idx + 1)
                 (placed_grid g (ws ! (ord ! idx)) cand)
                 (pushed (ord ! idx) (placement_of (ws ! (ord ! idx)) cand) s)))) \<Longrightarrow>
      Q srt clk lim R C ws ord idx g (cand # rest) s"
  shows "P srt clk lim R C ws ord idx g s"
    and "Q srt clk lim R C ws ord idx g cs s"
proof (induction srt clk lim R C ws ord idx g s and srt clk lim R C ws ord idx g cs s
    rule: solvePuzzleRecursively_try_candidates.induct)
  case (1 srt clk lim R C ws ord idx g s)
  show ?case
  proof (rule solve)
    assume nt: "\<not> hasTimedOut lim clk s" and np: "\<not> pruned ord idx (entered R C g s)"
    from np have c1: "\<not> length ord \<le> idx"
      and c2: "\<not> int (length (current_placements (clock_read s))) +
                  (int (length ord) - int idx)
                  \<le> num_placed (best_result
                       (update_best (int (length (current_placements (clock_read s))))
                          (calculateOverlapScore R C (current_placements (clock_read s))) g
                          (clock_read s)))"
      by (simp_all add: pruned_def entered_def)
    show "Q srt clk lim R C ws ord idx g (ranked_candidates srt R C g (ws ! (ord ! idx)))
            (entered R C g s)"
      unfolding entered_def
      by (rule "1.IH" [OF nt refl refl refl refl c1 refl c2])
  qed
next
  case (2 srt clk lim R C ws ord idx g s)
  show ?case by (rule skip) (rule "2.IH")
next
  case (3 srt clk lim R C ws ord idx g cand rest s)
  show ?case
  proof (rule place)
    assume nt: "\<not> hasTimedOut lim clk s"
    show "P srt clk lim R C ws ord (idx + 1) (placed_grid g (ws ! (ord ! idx)) cand)
            (pushed (ord ! idx) (placement_of (ws ! (ord ! idx)) cand) s)"
      unfolding placed_grid_def pushed_def placement_of_def
      by (rule "3.IH"(1) [OF nt refl refl refl refl])
    show "Q srt clk lim R C ws ord idx g rest
           (popped (ord ! idx)
              (solvePuzzleRecursively srt clk lim R C ws ord (idx + 1)
                 (placed_grid g (ws ! (ord ! idx)) cand)
                 (pushed (ord ! idx) (placement_of (ws ! (ord ! idx)) cand) s)))"
      unfolding placed_grid_def pushed_def placement_of_def popped_def
      by (rule "3.IH"(2) [OF nt refl refl refl refl refl refl])
  qed
qed

lemma current_placements_frame:
  "current_placements (solvePuzzleRecursively srt clk lim R C ws ord idx g s) =
     current_placements s"
  "current_placements (try_candidates srt clk lim R C ws ord idx g cs s) =
     current_placements s"
proof (induction srt clk lim R C ws ord idx g s and srt clk lim R C ws ord idx g cs s
    rule: search_induct)
  case (solve srt clk lim R C ws ord idx g s)
  then show ?case
    by (cases "hasTimedOut lim clk s"; cases "pruned ord idx (entered R C g s)")
       (simp_all add: search_simps)
next
  case (skip srt clk lim R C ws ord idx g s)
  then show ?case
    by (cases "hasTimedOut lim clk s") (simp_all add: search_simps)
next
  case (place srt clk lim R C ws ord idx g cand rest s)
  then show ?case
    by (cases "hasTimedOut lim clk s") (simp_all add: search_simps)
qed

section \<open>The best-solution record only advances\<close>

lemma best_advances_refl [simp]: "best_advances a a"
  by (simp add: best_advances_def)

lemma best_advances_trans: "best_advances a b \<Longrightarrow> best_advances b c \<Longrightarrow> best_advances a c"
  by (auto simp: best_advances_def)

lemma update_best_cases:
  "best_result (update_best pc ov g s) =
     (if result_key (best_result s) < (pc, ov)
      then (best_result s)\<lparr>num_placed := pc, total_overlap_score := ov, grid := g,
             placements := current_placements s\<rparr>
      else best_result s)"
  by (auto simp: update_best_def result_key_def less_prod_def)

lemma best_advances_update_best:
  "best_advances (best_result s) (best_result (update_best pc ov g s))"
  by (simp add: update_best_cases best_advances_def result_key_def)

lemma best_advances_entered: "best_advances (best_result s) (best_result (entered R C g s))"
  unfolding entered_def
  using best_advances_update_best [of "clock_read s"] by simp

lemma best_advances_search:
  "best_advances (best_result s)
     (best_result (solvePuzzleRecursively srt clk lim R C ws ord idx g s))"
  "best_advances (best_result s)
     (best_result (try_candidates srt clk lim R C ws ord idx g cs s))"
proof (induction srt clk lim R C ws ord idx g s and srt clk lim R C ws ord idx g cs s
    rule: search_induct)
  case (solve srt clk lim R C ws ord idx g s)
  show ?case
  proof (cases "hasTimedOut lim clk s")
    case True
    then show ?thesis by (simp add: search_simps)
  next
    case nt: False
    show ?thesis
    proof (cases "pruned ord idx (entered R C g s)")
      case True
      with nt show ?thesis by (simp add: search_simps best_advances_entered)
    next
      case False
      with nt solve show ?thesis
        by (auto simp: search_simps intro: best_advances_trans [OF best_advances_entered])
    qed
  qed
next
  case (skip srt clk lim R C ws ord idx g s)
  then show ?case
    by (cases "hasTimedOut lim clk s") (simp_all add: search_simps)
next
  case (place srt clk lim R C ws ord idx g cand rest s)
  show ?case
  proof (cases "hasTimedOut lim clk s")
    case True
    then show ?thesis by (simp add: search_simps)
  next
    case nt: False
    from place(1) [OF nt] place(2) [OF nt] show ?thesis
      by (simp add: try_place [OF nt]) (rule best_advances_trans)
  qed
qed

lemma best_advances_le: "best_advances a b \<Longrightarrow> result_key a \<le> result_key b"
  by (auto simp: best_advances_def)

text \<open>
  C4. The block that records a new best replaces the record only when the pair
  (placed_count, current_overlap) of the current branch is strictly greater, in the
  lexicographic order, than the pair of the recorded best, and the record then carries that
  pair. Across any call of the recursive search, and across any run of its candidate loop, the
  recorded best is either untouched or replaced by one with a strictly greater pair; so the
  pair of the recorded best never decreases.
\<close>

theorem best_result_monotone:
  "(best_result (update_best placed_count current_overlap g s) \<noteq> best_result s \<longrightarrow>
      result_key (best_result s) < (placed_count, current_overlap) \<and>
      result_key (best_result (update_best placed_count current_overlap g s)) =
        (placed_count, current_overlap)) \<and>
   (let s' = solvePuzzleRecursively srt elapsed_ms MAX_RUNTIME_MS GRID_ROWS GRID_COLS words
               word_order current_index g s
    in (best_result s' = best_result s \<or> result_key (best_result s) < result_key (best_result s')) \<and>
       result_key (best_result s) \<le> result_key (best_result s')) \<and>
   (let s' = try_candidates srt elapsed_ms MAX_RUNTIME_MS GRID_ROWS GRID_COLS words
               word_order current_index g candidates s
    in (best_result s' = best_result s \<or> result_key (best_result s) < result_key (best_result s')) \<and>
       result_key (best_result s) \<le> result_key (best_result s'))"
proof -
  have "best_result (update_best placed_count current_overlap g s) \<noteq> best_result s \<longrightarrow>
      result_key (best_result s) < (placed_count, current_overlap) \<and>
      result_key (best_result (update_best placed_count current_overlap g s)) =
        (placed_count, current_overlap)"
    by (simp add: update_best_cases result_key_def)
  moreover note
    best_advances_search(1) [of s srt elapsed_ms MAX_RUNTIME_MS GRID_ROWS GRID_COLS words
      word_order current_index g]
    best_advances_search(2) [of s srt elapsed_ms MAX_RUNTIME_MS GRID_ROWS GRID_COLS words
      word_order current_index g candidates]
  ultimately show ?thesis
    by (auto simp: Let_def best_advances_def)
qed

theorem best_result_monotone_witness:
  "best_result (update_best 1 0 [''.''] (initial_state 1)) \<noteq> best_result (initial_state 1) \<and>
   result_key (best_result (initial_state 1)) < (1, 0) \<and>
   result_key (best_result (initial_state 1))
     < result_key (best_result (solvePuzzleRecursively insertion_sort (\<lambda>_. 0) 1000 1 1
                                  [''A''] [0] 0 [''.''] (initial_state 1)))"
proof -
  have ne1: "best_result (update_best 1 0 [''.''] (initial_state 1)) \<noteq>
             best_result (initial_state 1)"
    by code_simp
  have ne2: "best_result (solvePuzzleRecursively insertion_sort (\<lambda>_. 0) 1000 1 1
                            [''A''] [0] 0 [''.''] (initial_state 1)) \<noteq>
             best_result (initial_state 1)"
    by code_simp
  from ne1 ne2
    best_result_monotone [where placed_count = 1 and current_overlap = 0 and g = "[''.'']"
      and s = "initial_state 1" and srt = insertion_sort and elapsed_ms = "\<lambda>_. 0"
      and MAX_RUNTIME_MS = 1000 and GRID_ROWS = 1 and GRID_COLS = 1 and words = "[''A'']"
      and word_order = "[0]" and current_index = 0 and candidates = "[]"]
  show ?thesis
    by (simp add: Let_def)
qed

section \<open>Sorting\<close>

lemma strict_weak_order_asym: "strict_weak_order cmp \<Longrightarrow> cmp x y \<Longrightarrow> \<not> cmp y x"
  unfolding strict_weak_order_def by blast

lemma strict_weak_order_negtrans:
  assumes "strict_weak_order cmp" and "\<not> cmp z y" and "\<not> cmp y x"
  shows "\<not> cmp z x"
proof
  assume zx: "cmp z x"
  from assms(1) have trans: "\<And>a b c. cmp a b \<Longrightarrow> cmp b c \<Longrightarrow> cmp a c"
    and irrefl: "\<And>a. \<not> cmp a a"
    and eqv: "\<And>a b c. \<not> cmp a b \<Longrightarrow> \<not> cmp b a \<Longrightarrow> \<not> cmp b c \<Longrightarrow> \<not> cmp c b \<Longrightarrow> \<not> cmp a c"
    unfolding strict_weak_order_def by blast+
  from zx assms(2) trans have "\<not> cmp x y" by blast
  moreover from zx assms(3) trans have "\<not> cmp y z" by blast
  ultimately have "\<not> cmp z x"
    using eqv [of z y x] assms(2,3) by blast
  with zx show False by simp
qed

lemma mset_insert_by: "mset (insert_by cmp x xs) = add_mset x (mset xs)"
  by (induction xs) simp_all

lemma set_insert_by: "set (insert_by cmp x xs) = insert x (set xs)"
  using mset_insert_by [of cmp x xs, THEN arg_cong, of set_mset] by simp

lemma sorted_insert_by:
  assumes swo: "strict_weak_order cmp"
  shows "sorted_wrt (\<lambda>a b. \<not> cmp b a) xs \<Longrightarrow> sorted_wrt (\<lambda>a b. \<not> cmp b a) (insert_by cmp x xs)"
proof (induction xs)
  case Nil
  show ?case by simp
next
  case (Cons y ys)
  show ?case
  proof (cases "cmp y x")
    case True
    with Cons show ?thesis
      by (auto simp: set_insert_by dest: strict_weak_order_asym [OF swo])
  next
    case False
    with Cons.prems show ?thesis
      by (auto dest: strict_weak_order_negtrans [OF swo])
  qed
qed

lemma mset_insertion_sort: "mset (insertion_sort cmp xs) = mset xs"
  unfolding insertion_sort_def by (induction xs) (simp_all add: mset_insert_by)

lemma sorted_insertion_sort:
  "strict_weak_order cmp \<Longrightarrow> sorted_wrt (\<lambda>a b. \<not> cmp b a) (insertion_sort cmp xs)"
  unfolding insertion_sort_def by (induction xs) (simp_all add: sorted_insert_by)

lemma std_sort_contract_insertion_sort: "std_sort_contract insertion_sort"
  unfolding std_sort_contract_def
  by (simp add: mset_insertion_sort sorted_insertion_sort)

lemma std_sort_contract_reversing_sort: "std_sort_contract reversing_sort"
  unfolding std_sort_contract_def reversing_sort_def
  by (simp add: mset_insertion_sort sorted_insertion_sort)

lemma strict_weak_order_candidate_less: "strict_weak_order (candidate_less R C)"
  unfolding strict_weak_order_def candidate_less_def
  by (auto split: if_splits)

lemma mset_ranked_candidates:
  "std_sort_contract srt \<Longrightarrow>
   mset (ranked_candidates srt R C g w) = mset (generate_candidates R C g w)"
  unfolding ranked_candidates_def std_sort_contract_def
  using strict_weak_order_candidate_less by blast

lemma set_ranked_candidates:
  "std_sort_contract srt \<Longrightarrow>
   set (ranked_candidates srt R C g w) = set (generate_candidates R C g w)"
  by (drule mset_ranked_candidates [of srt R C g w]) (rule mset_eq_setD)

lemma sorted_ranked_candidates:
  assumes "std_sort_contract srt"
  shows "sorted_wrt
     (\<lambda>a b. cand_overlap a > cand_overlap b \<or>
            (cand_overlap a = cand_overlap b \<and> center_distance R C a \<le> center_distance R C b))
     (ranked_candidates srt R C g w)"
proof -
  from assms have "sorted_wrt (\<lambda>a b. \<not> candidate_less R C b a) (ranked_candidates srt R C g w)"
    unfolding ranked_candidates_def std_sort_contract_def
    using strict_weak_order_candidate_less by blast
  then show ?thesis
    by (rule sorted_wrt_mono_rel [rotated]) (auto simp: candidate_less_def split: if_splits)
qed

lemma generate_candidates_iff:
  "cand \<in> set (generate_candidates R C g w) \<longleftrightarrow>
     isInBounds R C (cand_r cand) (cand_c cand) \<and>
     (cand_dr cand, cand_dc cand) \<in> set DIRECTIONS \<and>
     canPlaceWord R C g w (cand_r cand) (cand_c cand) (cand_dr cand) (cand_dc cand) =
       (True, cand_overlap cand)"
  (is "?lhs \<longleftrightarrow> ?rhs")
proof
  assume ?lhs
  then show ?rhs
    unfolding generate_candidates_def isInBounds_def
    by (auto simp: prod_eq_iff)
next
  assume r: ?rhs
  let ?mk = "\<lambda>r c dir. \<lparr>cand_r = r, cand_c = c, cand_dr = fst dir, cand_dc = snd dir,
       cand_overlap = snd (canPlaceWord R C g w r c (fst dir) (snd dir))\<rparr>"
  have "\<exists>r\<in>set [0..R - 1]. \<exists>c\<in>set [0..C - 1]. \<exists>dir\<in>set DIRECTIONS.
          fst (canPlaceWord R C g w r c (fst dir) (snd dir)) \<and> cand = ?mk r c dir"
  proof (rule bexI [of _ "cand_r cand"], rule bexI [of _ "cand_c cand"],
      rule bexI [of _ "(cand_dr cand, cand_dc cand)"])
    show "fst (canPlaceWord R C g w (cand_r cand) (cand_c cand)
               (fst (cand_dr cand, cand_dc cand)) (snd (cand_dr cand, cand_dc cand))) \<and>
          cand = ?mk (cand_r cand) (cand_c cand) (cand_dr cand, cand_dc cand)"
      using r by simp
    show "(cand_dr cand, cand_dc cand) \<in> set DIRECTIONS" using r by simp
    show "cand_c cand \<in> set [0..C - 1]" using r by (auto simp: isInBounds_def)
    show "cand_r cand \<in> set [0..R - 1]" using r by (auto simp: isInBounds_def)
  qed
  then show ?lhs
    unfolding generate_candidates_def by auto
qed

lemma distinct_concat_map:
  "distinct xs \<Longrightarrow> (\<And>x. x \<in> set xs \<Longrightarrow> distinct (f x)) \<Longrightarrow>
   (\<And>x y. x \<in> set xs \<Longrightarrow> y \<in> set xs \<Longrightarrow> x \<noteq> y \<Longrightarrow> set (f x) \<inter> set (f y) = {}) \<Longrightarrow>
   distinct (concat (map f xs))"
  by (induction xs) auto

lemma distinct_DIRECTIONS: "distinct DIRECTIONS"
  by (simp add: DIRECTIONS_def)

lemma distinct_generate_candidates: "distinct (generate_candidates R C g w)"
  unfolding generate_candidates_def
  by (intro distinct_concat_map distinct_upto distinct_DIRECTIONS) (auto simp: prod_eq_iff)

text \<open>
  C7, as the code has it. For a sort that meets the contract of \<^verbatim>\<open>std::sort\<close>, on a grid of
  the configured dimensions: the ranked list holds exactly the candidates (row, column,
  direction, overlap) with the cell in bounds, the direction one of the eight, and
  \<open>canPlaceWord\<close> returning true with that overlap count; no candidate occurs twice; and
  the list is ordered by overlap count descending, then by Manhattan distance from the grid
  centre ascending. Nothing is said of the order of candidates that tie on both keys.
\<close>

theorem ranked_candidates_sorted_feasible:
  "std_sort_contract srt \<Longrightarrow> wf_grid GRID_ROWS GRID_COLS g \<Longrightarrow>
   (\<forall>cand. cand \<in> set (ranked_candidates srt GRID_ROWS GRID_COLS g current_word) \<longleftrightarrow>
      isInBounds GRID_ROWS GRID_COLS (cand_r cand) (cand_c cand) \<and>
      (cand_dr cand, cand_dc cand) \<in> set DIRECTIONS \<and>
      canPlaceWord GRID_ROWS GRID_COLS g current_word (cand_r cand) (cand_c cand)
        (cand_dr cand) (cand_dc cand) = (True, cand_overlap cand)) \<and>
   distinct (ranked_candidates srt GRID_ROWS GRID_COLS g current_word) \<and>
   sorted_wrt
     (\<lambda>a b. cand_overlap a > cand_overlap b \<or>
            (cand_overlap a = cand_overlap b \<and>
             center_distance GRID_ROWS GRID_COLS a \<le> center_distance GRID_ROWS GRID_COLS b))
     (ranked_candidates srt GRID_ROWS GRID_COLS g current_word)"
proof -
  assume contract: "std_sort_contract srt"
  have "distinct (ranked_candidates srt GRID_ROWS GRID_COLS g current_word)"
    using mset_eq_imp_distinct_iff [OF mset_ranked_candidates [OF contract]]
      distinct_generate_candidates by blast
  then show ?thesis
    using sorted_ranked_candidates [OF contract]
    by (simp add: set_ranked_candidates [OF contract] generate_candidates_iff)
qed

theorem ranked_candidates_sorted_feasible_witness:
  "std_sort_contract insertion_sort \<and> wf_grid 1 3 [''C..''] \<and>
   ranked_candidates insertion_sort 1 3 [''C..''] ''AC'' =
     [\<lparr>cand_r = 0, cand_c = 1, cand_dr = 0, cand_dc = -1, cand_overlap = 1\<rparr>,
      \<lparr>cand_r = 0, cand_c = 1, cand_dr = 0, cand_dc = 1, cand_overlap = 0\<rparr>,
      \<lparr>cand_r = 0, cand_c = 2, cand_dr = 0, cand_dc = -1, cand_overlap = 0\<rparr>] \<and>
   distinct (ranked_candidates insertion_sort 1 3 [''C..''] ''AC'')"
proof -
  have wf: "wf_grid 1 3 [''C..'']"
    by (simp add: wf_grid_def)
  have "ranked_candidates insertion_sort 1 3 [''C..''] ''AC'' =
     [\<lparr>cand_r = 0, cand_c = 1, cand_dr = 0, cand_dc = -1, cand_overlap = 1\<rparr>,
      \<lparr>cand_r = 0, cand_c = 1, cand_dr = 0, cand_dc = 1, cand_overlap = 0\<rparr>,
      \<lparr>cand_r = 0, cand_c = 2, cand_dr = 0, cand_dc = -1, cand_overlap = 0\<rparr>]"
    by code_simp
  with ranked_candidates_sorted_feasible [OF std_sort_contract_insertion_sort wf, of "''AC''"]
    std_sort_contract_insertion_sort wf
  show ?thesis by blast
qed

text \<open>
  C7, as the specification states it, asks in addition that candidates tied on both keys
  stay in enumeration order. \<^verbatim>\<open>std::sort\<close> does not promise that: \<open>reversing_sort\<close> meets
  its contract, and on the 1 x 3 empty grid with the word A, which has 24 candidates, it
  returns tied candidates in the reverse of their enumeration order: the first two of the
  enumeration, tied on both keys, come out last and swapped.
\<close>

theorem ranked_candidates_stable_counterexample:
  "std_sort_contract reversing_sort \<and>
   length (generate_candidates 1 3 [''...''] ''A'') = 24 \<and>
   \<not> keeps_enumeration_order (candidate_less 1 3) (generate_candidates 1 3 [''...''] ''A'')
       (ranked_candidates reversing_sort 1 3 [''...''] ''A'') \<and>
   generate_candidates 1 3 [''...''] ''A'' ! 0 =
     \<lparr>cand_r = 0, cand_c = 0, cand_dr = 0, cand_dc = 1, cand_overlap = 0\<rparr> \<and>
   generate_candidates 1 3 [''...''] ''A'' ! 1 =
     \<lparr>cand_r = 0, cand_c = 0, cand_dr = 0, cand_dc = -1, cand_overlap = 0\<rparr> \<and>
   \<not> candidate_less 1 3 \<lparr>cand_r = 0, cand_c = 0, cand_dr = 0, cand_dc = 1, cand_overlap = 0\<rparr>
       \<lparr>cand_r = 0, cand_c = 0, cand_dr = 0, cand_dc = -1, cand_overlap = 0\<rparr> \<and>
   \<not> candidate_less 1 3 \<lparr>cand_r = 0, cand_c = 0, cand_dr = 0, cand_dc = -1, cand_overlap = 0\<rparr>
       \<lparr>cand_r = 0, cand_c = 0, cand_dr = 0, cand_dc = 1, cand_overlap = 0\<rparr> \<and>
   ranked_candidates reversing_sort 1 3 [''...''] ''A'' ! 22 =
     \<lparr>cand_r = 0, cand_c = 0, cand_dr = 0, cand_dc = -1, cand_overlap = 0\<rparr> \<and>
   ranked_candidates reversing_sort 1 3 [''...''] ''A'' ! 23 =
     \<lparr>cand_r = 0, cand_c = 0, cand_dr = 0, cand_dc = 1, cand_overlap = 0\<rparr>"
proof -
  have "length (generate_candidates 1 3 [''...''] ''A'') = 24"
    by code_simp
  moreover have "\<not> keeps_enumeration_order (candidate_less 1 3) (generate_candidates 1 3 [''...''] ''A'')
       (ranked_candidates reversing_sort 1 3 [''...''] ''A'')"
    by code_simp
  moreover have "generate_candidates 1 3 [''...''] ''A'' ! 0 =
     \<lparr>cand_r = 0, cand_c = 0, cand_dr = 0, cand_dc = 1, cand_overlap = 0\<rparr>"
    by code_simp
  moreover have "generate_candidates 1 3 [''...''] ''A'' ! 1 =
     \<lparr>cand_r = 0, cand_c = 0, cand_dr = 0, cand_dc = -1, cand_overlap = 0\<rparr>"
    by code_simp
  moreover have "\<not> candidate_less 1 3 \<lparr>cand_r = 0, cand_c = 0, cand_dr = 0, cand_dc = 1, cand_overlap = 0\<rparr>
       \<lparr>cand_r = 0, cand_c = 0, cand_dr = 0, cand_dc = -1, cand_overlap = 0\<rparr>"
    by (simp add: candidate_less_def center_distance_def)
  moreover have "\<not> candidate_less 1 3 \<lparr>cand_r = 0, cand_c = 0, cand_dr = 0, cand_dc = -1, cand_overlap = 0\<rparr>
       \<lparr>cand_r = 0, cand_c = 0, cand_dr = 0, cand_dc = 1, cand_overlap = 0\<rparr>"
    by (simp add: candidate_less_def center_distance_def)
  moreover have "ranked_candidates reversing_sort 1 3 [''...''] ''A'' ! 22 =
     \<lparr>cand_r = 0, cand_c = 0, cand_dr = 0, cand_dc = -1, cand_overlap = 0\<rparr>"
    by code_simp
  moreover have "ranked_candidates reversing_sort 1 3 [''...''] ''A'' ! 23 =
     \<lparr>cand_r = 0, cand_c = 0, cand_dr = 0, cand_dc = 1, cand_overlap = 0\<rparr>"
    by code_simp
  ultimately show ?thesis
    using std_sort_contract_reversing_sort by blast
qed

section \<open>Word order\<close>

lemma std_sort_greater_unique:
  fixes xs :: "('a :: linorder) list"
  assumes "std_sort_contract srt"
  shows "srt (\<lambda>a b. a > b) xs = rev (sort xs)"
proof -
  have swo: "strict_weak_order (\<lambda>a b :: 'a. a > b)"
    by (auto simp: strict_weak_order_def)
  from assms swo have m: "mset (srt (\<lambda>a b. a > b) xs) = mset xs"
    and s: "sorted_wrt (\<lambda>a b. \<not> b > a) (srt (\<lambda>a b. a > b) xs)"
    unfolding std_sort_contract_def by blast+
  from s have "sorted_wrt (\<lambda>a b. b \<le> a) (srt (\<lambda>a b. a > b) xs)"
    by (rule sorted_wrt_mono_rel [rotated]) auto
  then have "sorted (rev (srt (\<lambda>a b. a > b) xs))"
    by (simp add: sorted_wrt_rev)
  with m have "sort xs = rev (srt (\<lambda>a b. a > b) xs)"
    by (intro properties_for_sort) simp_all
  then show ?thesis by simp
qed

lemma concat_map_if: "concat (map (\<lambda>i. if P i then [f i] else []) xs) = map f (filter P xs)"
  by (induction xs) simp_all

lemma order_pass_alt:
  "order_pass ws flags p =
     map snd (rev (sort (map (\<lambda>i. (length (ws ! i), i))
                       (filter (\<lambda>i. (p = 0) = (flags ! i)) [0..<length ws]))))"
  unfolding order_pass_def concat_map_if ..

lemma mset_order_pass:
  "mset (order_pass ws flags p) = mset (filter (\<lambda>i. (p = 0) = (flags ! i)) [0..<length ws])"
proof -
  have "mset (order_pass ws flags p) =
        image_mset snd (mset (map (\<lambda>i. (length (ws ! i), i))
                                (filter (\<lambda>i. (p = 0) = (flags ! i)) [0..<length ws])))"
    unfolding order_pass_alt by (simp only: mset_map mset_rev mset_sort)
  also have "\<dots> = mset (filter (\<lambda>i. (p = 0) = (flags ! i)) [0..<length ws])"
    by (simp add: image_mset.compositionality comp_def flip: mset_map mset_filter)
  finally show ?thesis .
qed

lemma set_order_pass:
  "set (order_pass ws flags p) = {i. i < length ws \<and> (p = 0) = (flags ! i)}"
  using mset_order_pass [of ws flags p, THEN arg_cong, of set_mset] by auto

lemma sorted_order_pass:
  "sorted_wrt (\<lambda>i j. length (ws ! j) \<le> length (ws ! i)) (order_pass ws flags p)"
proof -
  let ?xs = "map (\<lambda>i. (length (ws ! i), i)) (filter (\<lambda>i. (p = 0) = (flags ! i)) [0..<length ws])"
  have "sorted_wrt (\<lambda>a b. b \<le> a) (rev (sort ?xs))"
    by (simp add: sorted_wrt_rev)
  then have "sorted_wrt (\<lambda>a b. length (ws ! snd b) \<le> length (ws ! snd a)) (rev (sort ?xs))"
  proof (rule sorted_wrt_mono_rel [rotated])
    fix a b
    assume "a \<in> set (rev (sort ?xs))" "b \<in> set (rev (sort ?xs))" "b \<le> a"
    then show "length (ws ! snd b) \<le> length (ws ! snd a)"
      by (auto simp: less_eq_prod_def)
  qed
  then show ?thesis
    unfolding order_pass_alt by (simp add: sorted_wrt_map)
qed

lemma mset_word_order_of: "mset (word_order_of ws flags) = mset [0..<length ws]"
proof -
  have "mset (word_order_of ws flags) =
        mset (filter (\<lambda>i. flags ! i) [0..<length ws]) +
        mset (filter (\<lambda>i. \<not> flags ! i) [0..<length ws])"
    by (simp add: word_order_of_def mset_order_pass)
  also have "\<dots> = mset [0..<length ws]"
    by (simp only: mset_filter multiset_partition [symmetric])
  finally show ?thesis .
qed

text \<open>
  C8. The attempt order is a permutation of the word indices in which no optional word comes
  before a required one, and in which, among words with the same flag, a word never comes
  before a longer one: required words first, longest first, then optional words, longest
  first.
\<close>

theorem word_order_required_then_longest:
  "length words \<le> length required_flags \<Longrightarrow>
   mset (word_order_of words required_flags) = mset [0..<length words] \<and>
   sorted_wrt
     (\<lambda>i j. (required_flags ! j \<longrightarrow> required_flags ! i) \<and>
            (required_flags ! i = required_flags ! j \<longrightarrow>
               length (words ! j) \<le> length (words ! i)))
     (word_order_of words required_flags)"
proof -
  note perm = mset_word_order_of [of words required_flags]
  have "sorted_wrt
     (\<lambda>i j. (required_flags ! j \<longrightarrow> required_flags ! i) \<and>
            (required_flags ! i = required_flags ! j \<longrightarrow>
               length (words ! j) \<le> length (words ! i)))
     (order_pass words required_flags p)" for p
    by (rule sorted_wrt_mono_rel [OF _ sorted_order_pass]) (auto simp: set_order_pass)
  then have "sorted_wrt
     (\<lambda>i j. (required_flags ! j \<longrightarrow> required_flags ! i) \<and>
            (required_flags ! i = required_flags ! j \<longrightarrow>
               length (words ! j) \<le> length (words ! i)))
     (word_order_of words required_flags)"
    by (simp add: word_order_of_def sorted_wrt_append set_order_pass)
  with perm show ?thesis by simp
qed

theorem word_order_required_then_longest_witness:
  "length [''AB'', ''ABCD'', ''XY'', ''ABC'', ''Q''] \<le> length [False, True, True, False, True] \<and>
   word_order_of [''AB'', ''ABCD'', ''XY'', ''ABC'', ''Q''] [False, True, True, False, True] =
     [1, 2, 4, 3, 0] \<and>
   mset (word_order_of [''AB'', ''ABCD'', ''XY'', ''ABC'', ''Q''] [False, True, True, False, True]) =
     mset [0..<length [''AB'', ''ABCD'', ''XY'', ''ABC'', ''Q'']]"
proof -
  have len: "length [''AB'', ''ABCD'', ''XY'', ''ABC'', ''Q''] \<le>
             length [False, True, True, False, True]"
    by simp
  have "word_order_of [''AB'', ''ABCD'', ''XY'', ''ABC'', ''Q''] [False, True, True, False, True] =
     [1, 2, 4, 3, 0]"
    by code_simp
  with word_order_required_then_longest [OF len] len show ?thesis
    by blast
qed

section \<open>What the search keeps true of the grid and of the recorded best\<close>

lemma cells_of_iff:
  "(i, j) \<in> set (cells_of p) \<longleftrightarrow>
     (\<exists>k < length (word p). i = row p + int k * delta_row p \<and> j = col p + int k * delta_col p)"
  by (auto simp: cells_of_def)

lemma covered_append:
  "covered (ps @ [p]) i j \<longleftrightarrow> covered ps i j \<or> (i, j) \<in> set (cells_of p)"
  by (auto simp: covered_def)

lemma feasible_in_bounds:
  "feasible R C g w cand \<Longrightarrow> k < length w \<Longrightarrow>
   isInBounds R C (cand_r cand + int k * cand_dr cand) (cand_c cand + int k * cand_dc cand)"
  unfolding feasible_def canPlaceWord_def canPlaceWord_loop_flag by blast

lemma feasible_cell:
  "feasible R C g w cand \<Longrightarrow> k < length w \<Longrightarrow>
   cell g (cand_r cand + int k * cand_dr cand) (cand_c cand + int k * cand_dc cand) = CHR ''.'' \<or>
   cell g (cand_r cand + int k * cand_dr cand) (cand_c cand + int k * cand_dc cand) = w ! k"
  unfolding feasible_def canPlaceWord_def canPlaceWord_loop_flag by blast

lemma feasible_step: "feasible R C g w cand \<Longrightarrow> (cand_dr cand, cand_dc cand) \<noteq> (0, 0)"
  unfolding feasible_def DIRECTIONS_def by auto

lemma placement_of_simps [simp]:
  "word (placement_of w cand) = w"
  "row (placement_of w cand) = cand_r cand"
  "col (placement_of w cand) = cand_c cand"
  "delta_row (placement_of w cand) = cand_dr cand"
  "delta_col (placement_of w cand) = cand_dc cand"
  by (simp_all add: placement_of_def)

lemma grid_cover_placed:
  assumes inv: "grid_cover R C g ps" and feas: "feasible R C g w cand"
  shows "grid_cover R C (placed_grid g w cand) (ps @ [placement_of w cand])"
proof -
  from inv have wf: "wf_grid R C g" by (simp add: grid_cover_def)
  have inb: "\<forall>k<length w. isInBounds R C (cand_r cand + int k * cand_dr cand)
                                        (cand_c cand + int k * cand_dc cand)"
    using feasible_in_bounds [OF feas] by blast
  have "cell (placed_grid g w cand) i j = CHR ''.''"
    if ij: "isInBounds R C i j" and nc: "\<not> covered (ps @ [placement_of w cand]) i j" for i j
  proof -
    from nc have old: "\<not> covered ps i j"
      and new: "\<forall>k<length w. \<not> (i = cand_r cand + int k * cand_dr cand \<and>
                                  j = cand_c cand + int k * cand_dc cand)"
      by (auto simp: covered_append cells_of_iff)
    have "cell (placed_grid g w cand) i j = cell g i j"
      unfolding placed_grid_def by (rule placeWord_other [OF wf inb ij new])
    with inv ij old show ?thesis by (simp add: grid_cover_def)
  qed
  with inv inb show ?thesis
    unfolding grid_cover_def placed_grid_def
    by (auto simp: wf_grid_placeWord)
qed

lemma grid_letters_placed:
  assumes cov: "grid_cover R C g ps" and letters: "grid_letters g ps"
    and feas: "feasible R C g w cand" and nodot: "CHR ''.'' \<notin> set w"
  shows "grid_letters (placed_grid g w cand) (ps @ [placement_of w cand])"
proof -
  from cov have wf: "wf_grid R C g" by (simp add: grid_cover_def)
  have inb: "\<forall>k<length w. isInBounds R C (cand_r cand + int k * cand_dr cand)
                                        (cand_c cand + int k * cand_dc cand)"
    using feasible_in_bounds [OF feas] by blast
  note nz = feasible_step [OF feas]
  have new: "cell (placed_grid g w cand) (cand_r cand + int k * cand_dr cand)
               (cand_c cand + int k * cand_dc cand) = w ! k" if "k < length w" for k
    unfolding placed_grid_def by (rule placeWord_written [OF wf inb nz that])
  have old: "cell (placed_grid g w cand) (row p + int k * delta_row p)
               (col p + int k * delta_col p) = word p ! k"
    if p: "p \<in> set ps" and k: "k < length (word p)" for p k
  proof -
    let ?i = "row p + int k * delta_row p" and ?j = "col p + int k * delta_col p"
    from cov p k have ij: "isInBounds R C ?i ?j" by (simp add: grid_cover_def)
    from letters p k have here: "cell g ?i ?j = word p ! k" and pd: "CHR ''.'' \<notin> set (word p)"
      by (simp_all add: grid_letters_def)
    from pd k have ne: "word p ! k \<noteq> CHR ''.''" by (metis nth_mem)
    show ?thesis
    proof (cases "\<exists>m<length w. ?i = cand_r cand + int m * cand_dr cand \<and>
                                ?j = cand_c cand + int m * cand_dc cand")
      case True
      then obtain m where m: "m < length w"
        and eq: "?i = cand_r cand + int m * cand_dr cand" "?j = cand_c cand + int m * cand_dc cand"
        by blast
      from feasible_cell [OF feas m] here ne eq have "w ! m = word p ! k" by auto
      with new [OF m] eq show ?thesis by simp
    next
      case False
      then have "cell (placed_grid g w cand) ?i ?j = cell g ?i ?j"
        unfolding placed_grid_def by (intro placeWord_other [OF wf inb ij]) blast
      with here show ?thesis by simp
    qed
  qed
  from letters have "\<forall>p\<in>set ps. CHR ''.'' \<notin> set (word p)" by (simp add: grid_letters_def)
  with new old nodot show ?thesis
    unfolding grid_letters_def by auto
qed

lemma placement_preserves_cover: "placement_preserves (grid_cover R C) R C ws"
  unfolding placement_preserves_def by (blast intro: grid_cover_placed)

lemma placement_preserves_letters:
  "\<forall>w \<in> set ws. CHR ''.'' \<notin> set w \<Longrightarrow>
   placement_preserves (\<lambda>g ps. grid_cover R C g ps \<and> grid_letters g ps) R C ws"
  unfolding placement_preserves_def
  by (blast intro: grid_cover_placed grid_letters_placed)

lemma grid_cover_blank:
  "0 \<le> R \<Longrightarrow> 0 \<le> C \<Longrightarrow> grid_cover R C (replicate (nat R) (replicate (nat C) CHR ''.'')) []"
  by (simp add: grid_cover_def wf_grid_replicate cell_replicate)

lemma grid_letters_Nil: "grid_letters g []"
  by (simp add: grid_letters_def)

lemma best_ok_entered:
  assumes "J g (current_placements s)" and "best_ok J (best_result s)"
  shows "best_ok J (best_result (entered R C g s))"
  using assms unfolding entered_def update_best_cases best_ok_def by simp

lemma ranked_feasible:
  assumes "std_sort_contract srt" and "cand \<in> set (ranked_candidates srt R C g w)"
  shows "feasible R C g w cand"
  using assms(2) unfolding set_ranked_candidates [OF assms(1)] generate_candidates_iff feasible_def
  by simp

lemma not_pruned_index: "\<not> pruned ord idx s \<Longrightarrow> idx < length ord"
  by (simp add: pruned_def)

lemma best_ok_search:
  "std_sort_contract srt \<Longrightarrow> placement_preserves J R C ws \<Longrightarrow> \<forall>i \<in> set ord. i < length ws \<Longrightarrow>
   J g (current_placements s) \<Longrightarrow> best_ok J (best_result s) \<Longrightarrow>
   best_ok J (best_result (solvePuzzleRecursively srt clk lim R C ws ord idx g s))"
  "std_sort_contract srt \<Longrightarrow> placement_preserves J R C ws \<Longrightarrow> \<forall>i \<in> set ord. i < length ws \<Longrightarrow>
   J g (current_placements s) \<Longrightarrow> best_ok J (best_result s) \<Longrightarrow>
   idx < length ord \<Longrightarrow> \<forall>cand \<in> set cs. feasible R C g (ws ! (ord ! idx)) cand \<Longrightarrow>
   best_ok J (best_result (try_candidates srt clk lim R C ws ord idx g cs s))"
proof (induction srt clk lim R C ws ord idx g s and srt clk lim R C ws ord idx g cs s
    rule: search_induct)
  case (solve srt clk lim R C ws ord idx g s)
  note ok1 = best_ok_entered [OF solve.prems(4,5)]
  show ?case
  proof (cases "hasTimedOut lim clk s")
    case True
    with solve.prems show ?thesis by (simp add: search_simps)
  next
    case nt: False
    show ?thesis
    proof (cases "pruned ord idx (entered R C g s)")
      case True
      with nt ok1 show ?thesis by (simp add: search_simps)
    next
      case np: False
      have "best_ok J (best_result (try_candidates srt clk lim R C ws ord idx g
              (ranked_candidates srt R C g (ws ! (ord ! idx))) (entered R C g s)))"
        using solve.prems ok1 not_pruned_index [OF np]
        by (intro solve.IH [OF nt np]) (simp_all add: ranked_feasible)
      with nt np show ?thesis by (simp add: search_simps)
    qed
  qed
next
  case (skip srt clk lim R C ws ord idx g s)
  show ?case
  proof (cases "hasTimedOut lim clk s")
    case True
    with skip.prems show ?thesis by (simp add: search_simps)
  next
    case nt: False
    have "best_ok J (best_result
            (solvePuzzleRecursively srt clk lim R C ws ord (idx + 1) g (clock_read s)))"
      using skip.prems by (intro skip.IH [OF nt]) simp_all
    with nt show ?thesis by (simp add: search_simps)
  qed
next
  case (place srt clk lim R C ws ord idx g cand rest s)
  show ?case
  proof (cases "hasTimedOut lim clk s")
    case True
    with place.prems show ?thesis by (simp add: search_simps)
  next
    case nt: False
    let ?w = "ws ! (ord ! idx)"
    let ?s1 = "pushed (ord ! idx) (placement_of ?w cand) s"
    let ?s2 = "solvePuzzleRecursively srt clk lim R C ws ord (idx + 1) (placed_grid g ?w cand) ?s1"
    from place.prems(3,6) have w: "?w \<in> set ws" by simp
    from place.prems(7) have feas: "feasible R C g ?w cand" by simp
    from place.prems(2,4) w feas
    have J1: "J (placed_grid g ?w cand) (current_placements ?s1)"
      unfolding placement_preserves_def by simp
    have ok2: "best_ok J (best_result ?s2)"
      using place.prems J1 by (intro place.IH(1) [OF nt]) simp_all
    have cps: "current_placements (popped (ord ! idx) ?s2) = current_placements s"
      by (simp add: current_placements_frame)
    have "best_ok J (best_result
            (try_candidates srt clk lim R C ws ord idx g rest (popped (ord ! idx) ?s2)))"
      using place.prems ok2 cps by (intro place.IH(2) [OF nt]) simp_all
    with nt show ?thesis by (simp add: search_simps)
  qed
qed

lemma word_order_indices: "\<forall>i \<in> set (word_order_of ws flags). i < length ws"
  by (auto simp: word_order_of_def set_order_pass)

lemma best_ok_initial: "best_ok J initial_result"
  by (simp add: best_ok_def initial_result_def)

lemma best_counts_initial: "best_counts R C initial_result"
  by (simp add: best_counts_def initial_result_def calculateOverlapScore_def)

lemma best_counts_entered:
  "best_counts R C (best_result s) \<Longrightarrow> best_counts R C (best_result (entered R C g s))"
  unfolding entered_def update_best_cases best_counts_def by simp

lemma best_counts_search:
  "best_counts R C (best_result s) \<Longrightarrow>
   best_counts R C (best_result (solvePuzzleRecursively srt clk lim R C ws ord idx g s))"
  "best_counts R C (best_result s) \<Longrightarrow>
   best_counts R C (best_result (try_candidates srt clk lim R C ws ord idx g cs s))"
proof (induction srt clk lim R C ws ord idx g s and srt clk lim R C ws ord idx g cs s
    rule: search_induct)
  case (solve srt clk lim R C ws ord idx g s)
  note ok1 = best_counts_entered [OF solve.prems, of g]
  show ?case
  proof (cases "hasTimedOut lim clk s")
    case True
    with solve.prems show ?thesis by (simp add: search_simps)
  next
    case nt: False
    show ?thesis
    proof (cases "pruned ord idx (entered R C g s)")
      case True
      with nt ok1 show ?thesis by (simp add: search_simps)
    next
      case np: False
      from solve.IH [OF nt np ok1] nt np show ?thesis by (simp add: search_simps)
    qed
  qed
next
  case (skip srt clk lim R C ws ord idx g s)
  show ?case
  proof (cases "hasTimedOut lim clk s")
    case True
    with skip.prems show ?thesis by (simp add: search_simps)
  next
    case nt: False
    from skip.IH [OF nt] skip.prems nt show ?thesis by (simp add: search_simps)
  qed
next
  case (place srt clk lim R C ws ord idx g cand rest s)
  show ?case
  proof (cases "hasTimedOut lim clk s")
    case True
    with place.prems show ?thesis by (simp add: search_simps)
  next
    case nt: False
    from place.prems have "best_counts R C (best_result
        (pushed (ord ! idx) (placement_of (ws ! (ord ! idx)) cand) s))"
      by simp
    from place.IH(1) [OF nt this] have "best_counts R C (best_result (popped (ord ! idx)
        (solvePuzzleRecursively srt clk lim R C ws ord (idx + 1)
           (placed_grid g (ws ! (ord ! idx)) cand)
           (pushed (ord ! idx) (placement_of (ws ! (ord ! idx)) cand) s))))"
      by simp
    from place.IH(2) [OF nt this] nt show ?thesis by (simp add: search_simps)
  qed
qed

lemma best_counts_search_best:
  "best_counts rows cols (search_best srt clk ws flags rows cols lim)"
  unfolding search_best_def Let_def
  by (intro best_counts_search(1)) (simp add: initial_state_def best_counts_initial)

lemma best_ok_search_best:
  assumes "std_sort_contract srt" and "placement_preserves J rows cols ws"
    and "J (replicate (nat rows) (replicate (nat cols) CHR ''.'')) []"
  shows "best_ok J (search_best srt clk ws flags rows cols lim)"
  unfolding search_best_def Let_def
  using assms word_order_indices
  by (intro best_ok_search(1)) (simp_all add: initial_state_def best_ok_initial)

section \<open>The random fill\<close>

lemma fill_letter_not_empty: "d \<le> 25 \<Longrightarrow> fill_letter d \<noteq> CHR ''.''"
proof
  assume d: "d \<le> 25" and eq: "fill_letter d = CHR ''.''"
  from eq have "(of_char (fill_letter d) :: nat) = of_char (CHR ''.'')" by simp
  with d show False by (simp add: fill_letter_def)
qed

lemma length_row_update [simp]:
  "r < length g \<Longrightarrow> length (g[r0 := (g ! r0)[c0 := x]] ! r) = length (g ! r)"
  by (cases "r = r0") simp_all

lemma nth_row_update:
  "r < length g \<Longrightarrow> c < length (g ! r) \<Longrightarrow>
   g[r0 := (g ! r0)[c0 := x]] ! r ! c = (if r = r0 \<and> c = c0 then x else g ! r ! c)"
  by (cases "r = r0"; cases "c = c0") simp_all

lemma fill_remaining_dims:
  "fill_remaining dist cs g n = Inr g' \<Longrightarrow> map length g' = map length g"
proof (induction dist cs g n rule: fill_remaining.induct)
  case (1 dist g n)
  then show ?case by simp
next
  case (2 dist r c rest g n)
  then show ?case
    by (auto simp: map_update list_update_same_conv split: if_splits)
qed

lemma fill_remaining_in_range:
  "fill_remaining dist cs g n = Inr g' \<Longrightarrow> (r, c) \<in> set cs \<Longrightarrow>
   r < length g \<and> c < length (g ! r)"
proof (induction dist cs g n rule: fill_remaining.induct)
  case (1 dist g n)
  then show ?case by simp
next
  case (2 dist r0 c0 rest g n)
  from "2.prems"(1) have here: "r0 < length g" "c0 < length (g ! r0)"
    by (auto split: if_splits)
  then have cond: "r0 < length g \<and> c0 < length (g ! r0)" by simp
  show ?case
  proof (cases "(r, c) = (r0, c0)")
    case True
    with here show ?thesis by simp
  next
    case False
    with "2.prems"(2) have mem: "(r, c) \<in> set rest" by auto
    show ?thesis
    proof (cases "g ! r0 ! c0 = CHR ''.''")
      case True
      let ?g1 = "g[r0 := (g ! r0)[c0 := fill_letter (dist n)]]"
      from "2.prems"(1) here True have "fill_remaining dist rest ?g1 (Suc n) = Inr g'" by simp
      from "2.IH"(1) [OF cond True this mem]
      have both: "r < length ?g1 \<and> c < length (?g1 ! r)" .
      then have cc: "c < length (?g1 ! r)" by blast
      from both have rr: "r < length g" by simp
      from cc have "c < length (g ! r)" by (simp only: length_row_update [OF rr])
      with rr show ?thesis by simp
    next
      case False
      from "2.prems"(1) here False have "fill_remaining dist rest g n = Inr g'" by simp
      from "2.IH"(2) [OF cond False this mem] here show ?thesis by simp
    qed
  qed
qed

lemma fill_remaining_cell:
  "fill_remaining dist cs g n = Inr g' \<Longrightarrow> \<forall>k. dist k \<le> 25 \<Longrightarrow>
   r < length g \<Longrightarrow> c < length (g ! r) \<Longrightarrow>
   (if g ! r ! c = CHR ''.'' \<and> (r, c) \<in> set cs
    then \<exists>k. g' ! r ! c = fill_letter (dist k)
    else g' ! r ! c = g ! r ! c)"
proof (induction dist cs g n rule: fill_remaining.induct)
  case (1 dist g n)
  then show ?case by simp
next
  case (2 dist r0 c0 rest g n)
  from "2.prems"(1) have here: "r0 < length g" "c0 < length (g ! r0)"
    by (auto split: if_splits)
  then have cond: "r0 < length g \<and> c0 < length (g ! r0)" by simp
  show ?case
  proof (cases "g ! r0 ! c0 = CHR ''.''")
    case True
    let ?l = "fill_letter (dist n)"
    let ?g1 = "g[r0 := (g ! r0)[c0 := ?l]]"
    from "2.prems"(2) have nd: "?l \<noteq> CHR ''.''"
      by (intro fill_letter_not_empty) simp
    from "2.prems"(1) here True have run: "fill_remaining dist rest ?g1 (Suc n) = Inr g'" by simp
    have r1: "r < length ?g1" and c1: "c < length (?g1 ! r)"
      using "2.prems"(3,4) by (auto simp: nth_list_update)
    note IH = "2.IH"(1) [OF cond True run "2.prems"(2) r1 c1]
    show ?thesis
    proof (cases "(r, c) = (r0, c0)")
      case same: True
      with here have "?g1 ! r ! c = ?l" by (simp add: nth_row_update)
      with IH here nd have "g' ! r ! c = ?l" by (simp split: if_splits)
      with same True show ?thesis by auto
    next
      case False
      with "2.prems"(3,4) have "?g1 ! r ! c = g ! r ! c"
        by (auto simp: nth_row_update)
      with IH here False show ?thesis by (auto split: if_splits)
    qed
  next
    case False
    from "2.prems"(1) here False have run: "fill_remaining dist rest g n = Inr g'" by simp
    note IH = "2.IH"(2) [OF cond False run "2.prems"(2,3,4)]
    show ?thesis
    proof (cases "(r, c) = (r0, c0)")
      case True
      with False IH show ?thesis by (auto split: if_splits)
    next
      case False
      with IH show ?thesis by (auto split: if_splits)
    qed
  qed
qed

lemma fill_remaining_returns:
  "\<forall>(r, c) \<in> set cs. r < length g \<and> c < length (g ! r) \<Longrightarrow>
   \<exists>g'. fill_remaining dist cs g n = Inr g'"
proof (induction dist cs g n rule: fill_remaining.induct)
  case (1 dist g n)
  show ?case by simp
next
  case (2 dist r c rest g n)
  from "2.prems" have here: "r < length g" "c < length (g ! r)" by simp_all
  then have cond: "r < length g \<and> c < length (g ! r)" by simp
  show ?case
  proof (cases "g ! r ! c = CHR ''.''")
    case True
    let ?g1 = "g[r := (g ! r)[c := fill_letter (dist n)]]"
    from "2.prems" have "\<forall>(r', c') \<in> set rest. r' < length ?g1 \<and> c' < length (?g1 ! r')"
      by (auto simp: nth_list_update)
    from "2.IH"(1) [OF cond True this] here True show ?thesis by simp
  next
    case False
    from "2.prems" have "\<forall>(r', c') \<in> set rest. r' < length g \<and> c' < length (g ! r')"
      by auto
    from "2.IH"(2) [OF cond False this] here False show ?thesis by simp
  qed
qed

section \<open>The result of the entry function\<close>

lemma set_cells_row_major:
  "set (cells_row_major rows cols) = {(r, c). r < nat rows \<and> c < nat cols}"
  by (auto simp: cells_row_major_def)

lemma generateWordSearch_Inr:
  assumes "generateWordSearch srt clk dist ws flags rows cols lim = Inr res"
  shows "0 \<le> rows" and "0 \<le> cols" and "length ws \<le> length flags"
    and "\<exists>g'. fill_remaining dist (cells_row_major rows cols)
                 (grid (search_best srt clk ws flags rows cols lim)) 0 = Inr g' \<and>
               grid res = g'"
    and "placements res = placements (search_best srt clk ws flags rows cols lim)"
    and "num_placed res = num_placed (search_best srt clk ws flags rows cols lim)"
    and "total_overlap_score res = total_overlap_score (search_best srt clk ws flags rows cols lim)"
    and "placed_words res = filter (\<lambda>w. w \<in> set (map word (placements res))) ws"
    and "unplaced_words res = filter (\<lambda>w. w \<notin> set (map word (placements res))) ws"
  using assms unfolding generateWordSearch_def Let_def
  by (auto split: if_splits sum.splits)

lemma search_best_cover:
  "std_sort_contract srt \<Longrightarrow> 0 \<le> rows \<Longrightarrow> 0 \<le> cols \<Longrightarrow>
   best_ok (grid_cover rows cols) (search_best srt clk ws flags rows cols lim)"
  by (intro best_ok_search_best placement_preserves_cover grid_cover_blank)

lemma search_best_letters:
  "std_sort_contract srt \<Longrightarrow> 0 \<le> rows \<Longrightarrow> 0 \<le> cols \<Longrightarrow> \<forall>w \<in> set ws. CHR ''.'' \<notin> set w \<Longrightarrow>
   best_ok (\<lambda>g ps. grid_cover rows cols g ps \<and> grid_letters g ps)
     (search_best srt clk ws flags rows cols lim)"
  by (intro best_ok_search_best placement_preserves_letters)
     (simp_all add: grid_cover_blank grid_letters_Nil)

text \<open>
  C1, as the code has it. For a sort that meets the contract of \<^verbatim>\<open>std::sort\<close> and a
  generator that draws in 0..25, whenever \<open>generateWordSearch\<close> returns a result: the
  returned placements are those the search recorded; and for every grid cell that no
  returned placement covers, the grid the search recorded holds the empty sentinel there,
  and the returned grid holds there a letter \<^verbatim>\<open>'A' + d\<close> with d in 0..25, written by the fill
  inside \<open>generateWordSearch\<close>, and so not the empty sentinel.
\<close>

theorem uncovered_cells_filled:
  "std_sort_contract srt \<Longrightarrow> \<forall>k. dist k \<le> 25 \<Longrightarrow>
   generateWordSearch srt elapsed_ms dist words required_flags rows cols runtime_ms = Inr res \<Longrightarrow>
   placements res = placements (search_best srt elapsed_ms words required_flags rows cols runtime_ms) \<and>
   (\<forall>i j. isInBounds rows cols i j \<and> \<not> covered (placements res) i j \<longrightarrow>
      cell (grid (search_best srt elapsed_ms words required_flags rows cols runtime_ms)) i j
        = CHR ''.'' \<and>
      (\<exists>d \<le> 25. cell (grid res) i j = fill_letter d) \<and>
      cell (grid res) i j \<noteq> CHR ''.'')"
proof -
  assume contract: "std_sort_contract srt" and dist: "\<forall>k. dist k \<le> 25"
    and run: "generateWordSearch srt elapsed_ms dist words required_flags rows cols runtime_ms = Inr res"
  let ?best = "search_best srt elapsed_ms words required_flags rows cols runtime_ms"
  note facts = generateWordSearch_Inr [OF run]
  from facts(4) have fill: "fill_remaining dist (cells_row_major rows cols) (grid ?best) 0 = Inr (grid res)"
    by blast
  have "cell (grid ?best) i j = CHR ''.'' \<and>
        (\<exists>d \<le> 25. cell (grid res) i j = fill_letter d) \<and> cell (grid res) i j \<noteq> CHR ''.''"
    if inb: "isInBounds rows cols i j" and unc: "\<not> covered (placements res) i j" for i j
  proof -
    from inb have mem: "(nat i, nat j) \<in> set (cells_row_major rows cols)"
      by (auto simp: set_cells_row_major isInBounds_def)
    from fill_remaining_in_range [OF fill mem]
    have rng: "nat i < length (grid ?best)" "nat j < length (grid ?best ! nat i)" by simp_all
    then have "grid ?best \<noteq> []" by auto
    with search_best_cover [OF contract facts(1,2), of elapsed_ms words required_flags runtime_ms]
    have "grid_cover rows cols (grid ?best) (placements ?best)"
      by (simp add: best_ok_def)
    with inb unc facts(5) have empty: "cell (grid ?best) i j = CHR ''.''"
      by (simp add: grid_cover_def)
    with fill_remaining_cell [OF fill dist rng] mem
    obtain k where "grid res ! nat i ! nat j = fill_letter (dist k)"
      by (auto simp: cell_def)
    with dist have "\<exists>d \<le> 25. cell (grid res) i j = fill_letter d"
      by (auto simp: cell_def)
    with empty show ?thesis
      by (auto dest: fill_letter_not_empty)
  qed
  with facts(5) show ?thesis by blast
qed

theorem uncovered_cells_filled_witness:
  "std_sort_contract insertion_sort \<and> (\<forall>k. (\<lambda>_. 1 :: nat) k \<le> 25) \<and>
   generateWordSearch insertion_sort (\<lambda>_. 0) (\<lambda>_. 1) [''A''] [True] 1 2 1000 =
     Inr \<lparr>grid = [''BA''],
        placements = [\<lparr>word = ''A'', row = 0, col = 1, delta_row = 0, delta_col = 1\<rparr>],
        placed_words = [''A''], unplaced_words = [], num_placed = 1, total_overlap_score = 0\<rparr> \<and>
   isInBounds 1 2 0 0 \<and>
   \<not> covered [\<lparr>word = ''A'', row = 0, col = 1, delta_row = 0, delta_col = 1\<rparr>] 0 0 \<and>
   cell (grid (search_best insertion_sort (\<lambda>_. 0) [''A''] [True] 1 2 1000)) 0 0 = CHR ''.'' \<and>
   cell [''BA''] 0 0 \<noteq> CHR ''.''"
proof -
  have run: "generateWordSearch insertion_sort (\<lambda>_. 0) (\<lambda>_. 1) [''A''] [True] 1 2 1000 =
     Inr \<lparr>grid = [''BA''],
        placements = [\<lparr>word = ''A'', row = 0, col = 1, delta_row = 0, delta_col = 1\<rparr>],
        placed_words = [''A''], unplaced_words = [], num_placed = 1, total_overlap_score = 0\<rparr>"
    by code_simp
  have dist: "\<forall>k. (\<lambda>_. 1 :: nat) k \<le> 25"
    by simp
  have inb: "isInBounds 1 2 0 0"
    by (simp add: isInBounds_def)
  have unc: "\<not> covered [\<lparr>word = ''A'', row = 0, col = 1, delta_row = 0, delta_col = 1\<rparr>] 0 0"
    by (simp add: covered_def cells_of_def)
  from uncovered_cells_filled [OF std_sort_contract_insertion_sort dist run] inb unc
  have "cell (grid (search_best insertion_sort (\<lambda>_. 0) [''A''] [True] 1 2 1000)) 0 0 = CHR ''.'' \<and>
        cell [''BA''] 0 0 \<noteq> CHR ''.''"
    by simp
  with std_sort_contract_insertion_sort dist run inb unc show ?thesis
    by blast
qed

text \<open>
  C1, as the specification states it, fails: with the one word A on a 1 x 2 grid, the word
  lands in cell (0, 1); cell (0, 0) is covered by no placement, and the returned grid holds
  there the letter the generator drew (B for the draw 1), not the empty sentinel.
\<close>

theorem uncovered_cells_empty_counterexample:
  "generateWordSearch insertion_sort (\<lambda>_. 0) (\<lambda>_. 1) [''A''] [True] 1 2 1000 =
     Inr \<lparr>grid = [''BA''],
        placements = [\<lparr>word = ''A'', row = 0, col = 1, delta_row = 0, delta_col = 1\<rparr>],
        placed_words = [''A''], unplaced_words = [], num_placed = 1, total_overlap_score = 0\<rparr> \<and>
   isInBounds 1 2 0 0 \<and>
   \<not> covered [\<lparr>word = ''A'', row = 0, col = 1, delta_row = 0, delta_col = 1\<rparr>] 0 0 \<and>
   cell [''BA''] 0 0 = CHR ''B'' \<and>
   cell [''BA''] 0 0 \<noteq> CHR ''.''"
proof -
  have "generateWordSearch insertion_sort (\<lambda>_. 0) (\<lambda>_. 1) [''A''] [True] 1 2 1000 =
     Inr \<lparr>grid = [''BA''],
        placements = [\<lparr>word = ''A'', row = 0, col = 1, delta_row = 0, delta_col = 1\<rparr>],
        placed_words = [''A''], unplaced_words = [], num_placed = 1, total_overlap_score = 0\<rparr>"
    by code_simp
  moreover have "isInBounds 1 2 0 0"
    by (simp add: isInBounds_def)
  moreover have "\<not> covered [\<lparr>word = ''A'', row = 0, col = 1, delta_row = 0, delta_col = 1\<rparr>] 0 0"
    by (simp add: covered_def cells_of_def)
  moreover have "cell [''BA''] 0 0 = CHR ''B''" "cell [''BA''] 0 0 \<noteq> CHR ''.''"
    by (simp_all add: cell_def)
  ultimately show ?thesis by blast
qed

text \<open>
  C5. For a sort that meets the contract of \<^verbatim>\<open>std::sort\<close> and words that do not contain
  the sentinel character, the placements of every result \<open>generateWordSearch\<close> returns are
  free of conflicts: every cell of every placement is in bounds, and whenever a cell of one
  placement is a cell of another (or of the same), the two words have the same letter
  there. So writing the placements onto an empty grid, in any order, never puts two
  different letters into one cell.
\<close>

theorem placements_conflict_free:
  "std_sort_contract srt \<Longrightarrow> \<forall>w \<in> set words. CHR ''.'' \<notin> set w \<Longrightarrow>
   generateWordSearch srt elapsed_ms dist words required_flags rows cols runtime_ms = Inr res \<Longrightarrow>
   (\<forall>p \<in> set (placements res). \<forall>k < length (word p).
      isInBounds rows cols (row p + int k * delta_row p) (col p + int k * delta_col p)) \<and>
   (\<forall>p \<in> set (placements res). \<forall>q \<in> set (placements res).
      \<forall>k < length (word p). \<forall>m < length (word q).
        row p + int k * delta_row p = row q + int m * delta_row q \<and>
        col p + int k * delta_col p = col q + int m * delta_col q \<longrightarrow>
        word p ! k = word q ! m)"
proof -
  assume contract: "std_sort_contract srt" and nodot: "\<forall>w \<in> set words. CHR ''.'' \<notin> set w"
    and run: "generateWordSearch srt elapsed_ms dist words required_flags rows cols runtime_ms = Inr res"
  let ?best = "search_best srt elapsed_ms words required_flags rows cols runtime_ms"
  note facts = generateWordSearch_Inr [OF run]
  from search_best_letters [OF contract facts(1,2) nodot, of elapsed_ms required_flags runtime_ms]
  have "(grid_cover rows cols (grid ?best) (placements res) \<and>
         grid_letters (grid ?best) (placements res)) \<or> placements res = []"
    unfolding best_ok_def facts(5) by blast
  then show ?thesis
  proof
    assume inv: "grid_cover rows cols (grid ?best) (placements res) \<and>
                 grid_letters (grid ?best) (placements res)"
    then have inb: "\<forall>p \<in> set (placements res). \<forall>k < length (word p).
        isInBounds rows cols (row p + int k * delta_row p) (col p + int k * delta_col p)"
      by (simp add: grid_cover_def)
    from inv have letters: "\<And>p k. p \<in> set (placements res) \<Longrightarrow> k < length (word p) \<Longrightarrow>
        cell (grid ?best) (row p + int k * delta_row p) (col p + int k * delta_col p) = word p ! k"
      by (simp add: grid_letters_def)
    have "word p ! k = word q ! m"
      if "p \<in> set (placements res)" "q \<in> set (placements res)"
        "k < length (word p)" "m < length (word q)"
        "row p + int k * delta_row p = row q + int m * delta_row q"
        "col p + int k * delta_col p = col q + int m * delta_col q" for p q k m
      using letters [OF that(1,3)] letters [OF that(2,4)] that(5,6) by simp
    with inb show ?thesis by blast
  next
    assume "placements res = []"
    then show ?thesis by simp
  qed
qed

theorem placements_conflict_free_witness:
  "std_sort_contract insertion_sort \<and>
   generateWordSearch insertion_sort (\<lambda>_. 0) (\<lambda>_. 1) [''AB'', ''BC''] [True, True] 1 3 1000 =
     Inr \<lparr>grid = [''ABC''],
        placements = [\<lparr>word = ''BC'', row = 0, col = 1, delta_row = 0, delta_col = 1\<rparr>,
                      \<lparr>word = ''AB'', row = 0, col = 0, delta_row = 0, delta_col = 1\<rparr>],
        placed_words = [''AB'', ''BC''], unplaced_words = [], num_placed = 2,
        total_overlap_score = 1\<rparr> \<and>
   isInBounds 1 3 (0 + int 1 * 0) (0 + int 1 * 1) \<and>
   ''BC'' ! 0 = ''AB'' ! 1"
proof -
  have nodot: "\<forall>w \<in> set [''AB'', ''BC'']. CHR ''.'' \<notin> set w"
    by simp
  have run: "generateWordSearch insertion_sort (\<lambda>_. 0) (\<lambda>_. 1) [''AB'', ''BC''] [True, True] 1 3 1000 =
     Inr \<lparr>grid = [''ABC''],
        placements = [\<lparr>word = ''BC'', row = 0, col = 1, delta_row = 0, delta_col = 1\<rparr>,
                      \<lparr>word = ''AB'', row = 0, col = 0, delta_row = 0, delta_col = 1\<rparr>],
        placed_words = [''AB'', ''BC''], unplaced_words = [], num_placed = 2,
        total_overlap_score = 1\<rparr>"
    by code_simp
  note free = placements_conflict_free [OF std_sort_contract_insertion_sort nodot run]
  from free [THEN conjunct1, rule_format,
      of "\<lparr>word = ''AB'', row = 0, col = 0, delta_row = 0, delta_col = 1\<rparr>" 1]
  have inb: "isInBounds 1 3 (0 + int 1 * 0) (0 + int 1 * 1)"
    by simp
  from free [THEN conjunct2, rule_format,
      of "\<lparr>word = ''BC'', row = 0, col = 1, delta_row = 0, delta_col = 1\<rparr>"
         "\<lparr>word = ''AB'', row = 0, col = 0, delta_row = 0, delta_col = 1\<rparr>" 0 1]
  have same: "''BC'' ! 0 = ''AB'' ! 1"
    by simp
  from std_sort_contract_insertion_sort run inb same show ?thesis
    by blast
qed

text \<open>
  C3. For non-negative dimensions, the map the scorer builds from the zero map holds in
  every grid cell the number of placement cells that fall on it, and the score returned is
  the direct recount: the sum over the grid cells of max(0, usage - 1), so that a cell used
  three times contributes 2. And the score of every result \<open>generateWordSearch\<close> returns is
  that recount over the returned placements.
\<close>

theorem overlap_score_is_recount:
  "(0 \<le> GRID_ROWS \<and> 0 \<le> GRID_COLS \<longrightarrow>
      (\<forall>i j. isInBounds GRID_ROWS GRID_COLS i j \<longrightarrow>
         cell (mark_placements GRID_ROWS GRID_COLS ps
                 (replicate (nat GRID_ROWS) (replicate (nat GRID_COLS) 0))) i j =
         usage_count ps i j) \<and>
      calculateOverlapScore GRID_ROWS GRID_COLS ps = direct_recount GRID_ROWS GRID_COLS ps) \<and>
   (generateWordSearch srt elapsed_ms dist words required_flags rows cols runtime_ms = Inr res \<longrightarrow>
      total_overlap_score res = direct_recount rows cols (placements res))"
proof (intro conjI impI allI)
  fix i j
  assume "0 \<le> GRID_ROWS \<and> 0 \<le> GRID_COLS" and inb: "isInBounds GRID_ROWS GRID_COLS i j"
  then have "wf_grid GRID_ROWS GRID_COLS
               (replicate (nat GRID_ROWS) (replicate (nat GRID_COLS) (0::int)))"
    by (simp add: wf_grid_replicate)
  from mark_placements_cell [OF this inb, of ps] cell_replicate [OF inb, of "0::int"]
  show "cell (mark_placements GRID_ROWS GRID_COLS ps
                (replicate (nat GRID_ROWS) (replicate (nat GRID_COLS) 0))) i j =
        usage_count ps i j"
    by simp
next
  assume "0 \<le> GRID_ROWS \<and> 0 \<le> GRID_COLS"
  then show "calculateOverlapScore GRID_ROWS GRID_COLS ps = direct_recount GRID_ROWS GRID_COLS ps"
    by (simp add: calculateOverlapScore_recount)
next
  assume run: "generateWordSearch srt elapsed_ms dist words required_flags rows cols runtime_ms = Inr res"
  note facts = generateWordSearch_Inr [OF run]
  from best_counts_search_best [of rows cols srt elapsed_ms words required_flags runtime_ms]
  have "total_overlap_score res = calculateOverlapScore rows cols (placements res)"
    unfolding best_counts_def facts(5,7) by simp
  with facts(1,2) show "total_overlap_score res = direct_recount rows cols (placements res)"
    by (simp add: calculateOverlapScore_recount)
qed

theorem overlap_score_is_recount_witness:
  "(0 :: int) \<le> 3 \<and>
   usage_count
     [\<lparr>word = ''A'', row = 1, col = 1, delta_row = 0, delta_col = 1\<rparr>,
      \<lparr>word = ''A'', row = 1, col = 1, delta_row = 1, delta_col = 0\<rparr>,
      \<lparr>word = ''AB'', row = 1, col = 1, delta_row = 1, delta_col = 1\<rparr>] 1 1 = 3 \<and>
   direct_recount 3 3
     [\<lparr>word = ''A'', row = 1, col = 1, delta_row = 0, delta_col = 1\<rparr>,
      \<lparr>word = ''A'', row = 1, col = 1, delta_row = 1, delta_col = 0\<rparr>,
      \<lparr>word = ''AB'', row = 1, col = 1, delta_row = 1, delta_col = 1\<rparr>] = 2 \<and>
   calculateOverlapScore 3 3
     [\<lparr>word = ''A'', row = 1, col = 1, delta_row = 0, delta_col = 1\<rparr>,
      \<lparr>word = ''A'', row = 1, col = 1, delta_row = 1, delta_col = 0\<rparr>,
      \<lparr>word = ''AB'', row = 1, col = 1, delta_row = 1, delta_col = 1\<rparr>] = 2 \<and>
   generateWordSearch insertion_sort (\<lambda>_. 0) (\<lambda>_. 1) [''AB'', ''BC''] [True, True] 1 3 1000 =
     Inr \<lparr>grid = [''ABC''],
        placements = [\<lparr>word = ''BC'', row = 0, col = 1, delta_row = 0, delta_col = 1\<rparr>,
                      \<lparr>word = ''AB'', row = 0, col = 0, delta_row = 0, delta_col = 1\<rparr>],
        placed_words = [''AB'', ''BC''], unplaced_words = [], num_placed = 2,
        total_overlap_score = 1\<rparr> \<and>
   direct_recount 1 3
     [\<lparr>word = ''BC'', row = 0, col = 1, delta_row = 0, delta_col = 1\<rparr>,
      \<lparr>word = ''AB'', row = 0, col = 0, delta_row = 0, delta_col = 1\<rparr>] = 1"
proof -
  have three: "usage_count
     [\<lparr>word = ''A'', row = 1, col = 1, delta_row = 0, delta_col = 1\<rparr>,
      \<lparr>word = ''A'', row = 1, col = 1, delta_row = 1, delta_col = 0\<rparr>,
      \<lparr>word = ''AB'', row = 1, col = 1, delta_row = 1, delta_col = 1\<rparr>] 1 1 = 3"
    by code_simp
  have recount: "direct_recount 3 3
     [\<lparr>word = ''A'', row = 1, col = 1, delta_row = 0, delta_col = 1\<rparr>,
      \<lparr>word = ''A'', row = 1, col = 1, delta_row = 1, delta_col = 0\<rparr>,
      \<lparr>word = ''AB'', row = 1, col = 1, delta_row = 1, delta_col = 1\<rparr>] = 2"
    by code_simp
  have run: "generateWordSearch insertion_sort (\<lambda>_. 0) (\<lambda>_. 1) [''AB'', ''BC''] [True, True] 1 3 1000 =
     Inr \<lparr>grid = [''ABC''],
        placements = [\<lparr>word = ''BC'', row = 0, col = 1, delta_row = 0, delta_col = 1\<rparr>,
                      \<lparr>word = ''AB'', row = 0, col = 0, delta_row = 0, delta_col = 1\<rparr>],
        placed_words = [''AB'', ''BC''], unplaced_words = [], num_placed = 2,
        total_overlap_score = 1\<rparr>"
    by code_simp
  note inst = overlap_score_is_recount [where GRID_ROWS = 3 and GRID_COLS = 3
      and ps = "[\<lparr>word = ''A'', row = 1, col = 1, delta_row = 0, delta_col = 1\<rparr>,
      \<lparr>word = ''A'', row = 1, col = 1, delta_row = 1, delta_col = 0\<rparr>,
      \<lparr>word = ''AB'', row = 1, col = 1, delta_row = 1, delta_col = 1\<rparr>]"
      and srt = insertion_sort and elapsed_ms = "\<lambda>_. 0" and dist = "\<lambda>_. 1"
      and words = "[''AB'', ''BC'']" and required_flags = "[True, True]" and rows = 1 and cols = 3
      and runtime_ms = 1000
      and res = "\<lparr>grid = [''ABC''],
        placements = [\<lparr>word = ''BC'', row = 0, col = 1, delta_row = 0, delta_col = 1\<rparr>,
                      \<lparr>word = ''AB'', row = 0, col = 0, delta_row = 0, delta_col = 1\<rparr>],
        placed_words = [''AB'', ''BC''], unplaced_words = [], num_placed = 2,
        total_overlap_score = 1\<rparr>"]
  from inst recount have score: "calculateOverlapScore 3 3
     [\<lparr>word = ''A'', row = 1, col = 1, delta_row = 0, delta_col = 1\<rparr>,
      \<lparr>word = ''A'', row = 1, col = 1, delta_row = 1, delta_col = 0\<rparr>,
      \<lparr>word = ''AB'', row = 1, col = 1, delta_row = 1, delta_col = 1\<rparr>] = 2"
    by simp
  from inst run have "direct_recount 1 3
     [\<lparr>word = ''BC'', row = 0, col = 1, delta_row = 0, delta_col = 1\<rparr>,
      \<lparr>word = ''AB'', row = 0, col = 0, delta_row = 0, delta_col = 1\<rparr>] = 1"
    by simp
  with three recount score run show ?thesis
    by simp
qed

text \<open>
  C6. In every result \<open>generateWordSearch\<close> returns, the lists of placed and unplaced words
  together hold the input words, each as often as the input has it; no word is in both;
  and a word of the input is in the placed list exactly when some returned placement
  carries it, in the unplaced list otherwise.
\<close>

theorem placed_unplaced_partition:
  "generateWordSearch srt elapsed_ms dist words required_flags rows cols runtime_ms = Inr res \<Longrightarrow>
   mset (placed_words res) + mset (unplaced_words res) = mset words \<and>
   set (placed_words res) \<inter> set (unplaced_words res) = {} \<and>
   set (placed_words res) = {w \<in> set words. w \<in> word ` set (placements res)} \<and>
   set (unplaced_words res) = {w \<in> set words. w \<notin> word ` set (placements res)}"
proof -
  assume run: "generateWordSearch srt elapsed_ms dist words required_flags rows cols runtime_ms = Inr res"
  note facts = generateWordSearch_Inr [OF run]
  have "mset (placed_words res) + mset (unplaced_words res) = mset words"
    unfolding facts(8,9) by (simp only: mset_filter multiset_partition [symmetric])
  then show ?thesis
    unfolding facts(8,9) by auto
qed

theorem placed_unplaced_partition_witness:
  "generateWordSearch insertion_sort (\<lambda>_. 0) (\<lambda>_. 1) [''AB'', ''XYZW''] [True, False] 1 2 1000 =
     Inr \<lparr>grid = [''BA''],
        placements = [\<lparr>word = ''AB'', row = 0, col = 1, delta_row = 0, delta_col = - 1\<rparr>],
        placed_words = [''AB''], unplaced_words = [''XYZW''], num_placed = 1,
        total_overlap_score = 0\<rparr> \<and>
   mset [''AB''] + mset [''XYZW''] = mset [''AB'', ''XYZW''] \<and>
   set [''AB''] \<inter> set [''XYZW''] = {}"
proof -
  have run: "generateWordSearch insertion_sort (\<lambda>_. 0) (\<lambda>_. 1) [''AB'', ''XYZW''] [True, False] 1 2 1000 =
     Inr \<lparr>grid = [''BA''],
        placements = [\<lparr>word = ''AB'', row = 0, col = 1, delta_row = 0, delta_col = - 1\<rparr>],
        placed_words = [''AB''], unplaced_words = [''XYZW''], num_placed = 1,
        total_overlap_score = 0\<rparr>"
    by code_simp
  note part = placed_unplaced_partition [OF run]
  from part [THEN conjunct1]
  have all: "mset [''AB''] + mset [''XYZW''] = mset [''AB'', ''XYZW'']"
    by simp
  from part [THEN conjunct2, THEN conjunct1]
  have disjoint: "set [''AB''] \<inter> set [''XYZW''] = {}"
    by simp
  from run all disjoint show ?thesis
    by blast
qed

section \<open>When the entry function returns\<close>

lemma search_best_timed_out:
  "runtime_ms \<le> elapsed_ms 0 \<Longrightarrow>
   search_best srt elapsed_ms ws flags rows cols runtime_ms = initial_result"
  unfolding search_best_def Let_def
  by (subst solve_timed_out) (simp_all add: hasTimedOut_def initial_state_def)

lemma search_best_cases:
  "search_best srt clk ws flags rows cols lim = initial_result \<or>
   placements (search_best srt clk ws flags rows cols lim) \<noteq> []"
proof -
  let ?best = "search_best srt clk ws flags rows cols lim"
  have "best_advances initial_result ?best"
    unfolding search_best_def Let_def
    using best_advances_search(1) [of "initial_state (length ws)"]
    by (simp add: initial_state_def)
  moreover have "best_counts rows cols ?best"
    by (rule best_counts_search_best)
  ultimately show ?thesis
    by (auto simp: best_advances_def best_counts_def result_key_def initial_result_def
          calculateOverlapScore_def)
qed

lemma fill_remaining_empty_grid:
  "0 < rows \<Longrightarrow> 0 < cols \<Longrightarrow> fill_remaining dist (cells_row_major rows cols) [] n = Inl OutOfRange"
proof -
  assume "0 < rows" "0 < cols"
  then obtain a b where "nat rows = Suc a" "nat cols = Suc b"
    by (metis Suc_pred zero_less_nat_eq)
  then obtain rest where "cells_row_major rows cols = (0, 0) # rest"
    by (simp add: cells_row_major_def upt_conv_Cons del: upt_Suc)
  then show ?thesis by simp
qed

lemma generateWordSearch_out_of_range:
  assumes "0 < rows" and "0 < cols" and "length ws \<le> length flags"
    and "placements (search_best srt clk ws flags rows cols lim) = []"
  shows "generateWordSearch srt clk dist ws flags rows cols lim = Inl OutOfRange"
proof -
  from assms(4) search_best_cases [of srt clk ws flags rows cols lim]
  have "grid (search_best srt clk ws flags rows cols lim) = []"
    by (auto simp: initial_result_def)
  with assms(1-3) show ?thesis
    by (simp add: generateWordSearch_def Let_def fill_remaining_empty_grid)
qed

lemma wf_grid_row_length:
  "wf_grid R C g \<Longrightarrow> r < length g \<Longrightarrow> int (length (g ! r)) = C"
  by (simp add: wf_grid_def)

lemma generateWordSearch_returns:
  assumes contract: "std_sort_contract srt"
    and dims: "0 \<le> rows" "0 \<le> cols" and flags: "length ws \<le> length flags"
    and some: "placements (search_best srt clk ws flags rows cols lim) \<noteq> []"
  shows "\<exists>res. generateWordSearch srt clk dist ws flags rows cols lim = Inr res"
proof -
  let ?best = "search_best srt clk ws flags rows cols lim"
  from search_best_cover [OF contract dims, of clk ws flags lim] some
  have wf: "wf_grid rows cols (grid ?best)"
    by (auto simp: best_ok_def grid_cover_def)
  have "r < length (grid ?best) \<and> c < length (grid ?best ! r)"
    if "r < nat rows" "c < nat cols" for r c
  proof -
    from wf that(1) have r: "r < length (grid ?best)" by (auto simp: wf_grid_def)
    from wf_grid_row_length [OF wf r] that(2) have "c < length (grid ?best ! r)" by simp
    with r show ?thesis by simp
  qed
  then have "\<forall>(r, c) \<in> set (cells_row_major rows cols).
               r < length (grid ?best) \<and> c < length (grid ?best ! r)"
    by (simp add: set_cells_row_major)
  from fill_remaining_returns [OF this, of dist 0]
  obtain g' where "fill_remaining dist (cells_row_major rows cols) (grid ?best) 0 = Inr g'"
    by blast
  with dims flags show ?thesis
    by (simp add: generateWordSearch_def Let_def)
qed

lemma generateWordSearch_timed_out_at_once:
  "runtime_ms \<le> elapsed_ms 0 \<Longrightarrow> 0 < rows \<Longrightarrow> 0 < cols \<Longrightarrow> length ws \<le> length flags \<Longrightarrow>
   generateWordSearch srt elapsed_ms dist ws flags rows cols runtime_ms = Inl OutOfRange"
  by (intro generateWordSearch_out_of_range)
     (simp_all add: search_best_timed_out initial_result_def)

text \<open>
  With a clock that never reaches the limit, a grid with at least one row and a word that is
  not empty and no longer than a row, the search places at least one word, and
  \<open>generateWordSearch\<close> returns a result.
\<close>

lemma num_placed_advances:
  "best_advances a b \<Longrightarrow> num_placed a \<le> num_placed b"
  by (auto simp: best_advances_def result_key_def less_prod_def)

lemma num_placed_entered:
  "int (length (current_placements s)) \<le> num_placed (best_result (entered R C g s))"
  unfolding entered_def update_best_cases
  by (auto simp: result_key_def less_prod_def)

lemma solve_records_depth:
  assumes "\<not> hasTimedOut lim clk s"
  shows "int (length (current_placements s))
         \<le> num_placed (best_result (solvePuzzleRecursively srt clk lim R C ws ord idx g s))"
proof (cases "pruned ord idx (entered R C g s)")
  case True
  with assms show ?thesis by (simp add: search_simps num_placed_entered)
next
  case False
  have "num_placed (best_result (entered R C g s))
        \<le> num_placed (best_result (try_candidates srt clk lim R C ws ord idx g
               (ranked_candidates srt R C g (ws ! (ord ! idx))) (entered R C g s)))"
    by (intro num_placed_advances best_advances_search)
  with num_placed_entered [of s R C g] assms False show ?thesis
    by (simp add: search_simps)
qed

lemma search_places_one:
  "\<forall>n. clk n < lim \<Longrightarrow> std_sort_contract srt \<Longrightarrow>
   \<exists>j. idx \<le> j \<and> j < length ord \<and> generate_candidates R C g (ws ! (ord ! j)) \<noteq> [] \<Longrightarrow>
   int (length (current_placements s)) + 1
     \<le> num_placed (best_result (solvePuzzleRecursively srt clk lim R C ws ord idx g s))"
  "\<forall>n. clk n < lim \<Longrightarrow> std_sort_contract srt \<Longrightarrow> idx < length ord \<Longrightarrow>
   cs \<noteq> [] \<or>
   (\<exists>j. idx + 1 \<le> j \<and> j < length ord \<and> generate_candidates R C g (ws ! (ord ! j)) \<noteq> []) \<Longrightarrow>
   int (length (current_placements s)) + 1
     \<le> num_placed (best_result (try_candidates srt clk lim R C ws ord idx g cs s))"
proof (induction srt clk lim R C ws ord idx g s and srt clk lim R C ws ord idx g cs s
    rule: search_induct)
  case (solve srt clk lim R C ws ord idx g s)
  from solve.prems(1) have nt: "\<not> hasTimedOut lim clk s"
    by (simp add: hasTimedOut_def not_le)
  from solve.prems(3) obtain j where j: "idx \<le> j" "j < length ord"
    "generate_candidates R C g (ws ! (ord ! j)) \<noteq> []"
    by blast
  show ?case
  proof (cases "pruned ord idx (entered R C g s)")
    case True
    with j have "int (length (current_placements s)) + 1
                 \<le> num_placed (best_result (entered R C g s))"
      by (simp add: pruned_def)
    with nt True show ?thesis by (simp add: search_simps)
  next
    case np: False
    have "ranked_candidates srt R C g (ws ! (ord ! idx)) \<noteq> [] \<or>
          (\<exists>j. idx + 1 \<le> j \<and> j < length ord \<and>
               generate_candidates R C g (ws ! (ord ! j)) \<noteq> [])"
    proof (cases "j = idx")
      case True
      with j(3) set_ranked_candidates [OF solve.prems(2), of R C g "ws ! (ord ! idx)"]
      show ?thesis by (metis set_empty)
    next
      case False
      with j show ?thesis by (intro disjI2 exI [of _ j]) simp
    qed
    from solve.IH [OF nt np solve.prems(1,2) not_pruned_index [OF np] this] nt np
    show ?thesis by (simp add: search_simps)
  qed
next
  case (skip srt clk lim R C ws ord idx g s)
  from skip.prems(1) have nt: "\<not> hasTimedOut lim clk s"
    by (simp add: hasTimedOut_def not_le)
  from skip.prems(4) have "\<exists>j. idx + 1 \<le> j \<and> j < length ord \<and>
      generate_candidates R C g (ws ! (ord ! j)) \<noteq> []"
    by simp
  from skip.IH [OF nt skip.prems(1,2) this] nt show ?case
    by (simp add: search_simps)
next
  case (place srt clk lim R C ws ord idx g cand rest s)
  from place.prems(1) have nt: "\<not> hasTimedOut lim clk s" for s
    by (simp add: hasTimedOut_def not_le)
  let ?s1 = "pushed (ord ! idx) (placement_of (ws ! (ord ! idx)) cand) s"
  let ?s2 = "solvePuzzleRecursively srt clk lim R C ws ord (idx + 1)
               (placed_grid g (ws ! (ord ! idx)) cand) ?s1"
  have "int (length (current_placements s)) + 1 \<le> num_placed (best_result ?s2)"
    using solve_records_depth [OF nt, of ?s1 srt R C ws ord "idx + 1"
        "placed_grid g (ws ! (ord ! idx)) cand"]
    by simp
  also have "\<dots> \<le> num_placed (best_result
      (try_candidates srt clk lim R C ws ord idx g rest (popped (ord ! idx) ?s2)))"
    using best_advances_search(2) [of "popped (ord ! idx) ?s2" srt clk lim R C ws ord idx g rest]
    by (auto dest: num_placed_advances)
  finally show ?case
    using nt by (simp add: search_simps)
qed

lemma blank_grid_fits:
  assumes "0 < rows" and "w \<noteq> []" and "int (length w) \<le> cols"
  shows "generate_candidates rows cols (replicate (nat rows) (replicate (nat cols) CHR ''.'')) w \<noteq> []"
proof -
  let ?g = "replicate (nat rows) (replicate (nat cols) CHR ''.'')"
  let ?cand = "\<lparr>cand_r = 0, cand_c = 0, cand_dr = 0, cand_dc = 1,
                 cand_overlap = snd (canPlaceWord rows cols ?g w 0 0 0 1)\<rparr>"
  have inb: "isInBounds rows cols (0 + int k * 0) (0 + int k * 1)" if "k < length w" for k
    using assms that by (simp add: isInBounds_def)
  then have "fst (canPlaceWord rows cols ?g w 0 0 0 1)"
    unfolding canPlaceWord_def canPlaceWord_loop_flag
    by (auto simp: cell_replicate)
  moreover from assms have "isInBounds rows cols 0 0"
    by (cases w) (simp_all add: isInBounds_def)
  ultimately have "?cand \<in> set (generate_candidates rows cols ?g w)"
    unfolding generate_candidates_iff by (simp add: DIRECTIONS_def prod_eq_iff)
  then show ?thesis by auto
qed

lemma search_best_places_one:
  assumes contract: "std_sort_contract srt" and time: "\<forall>n. clk n < lim"
    and fits: "\<exists>w \<in> set ws.
      generate_candidates rows cols (replicate (nat rows) (replicate (nat cols) CHR ''.'')) w \<noteq> []"
  shows "placements (search_best srt clk ws flags rows cols lim) \<noteq> []"
proof -
  let ?g = "replicate (nat rows) (replicate (nat cols) CHR ''.'')"
  let ?ord = "word_order_of ws flags"
  from fits obtain i where i: "i < length ws" "generate_candidates rows cols ?g (ws ! i) \<noteq> []"
    by (auto simp: in_set_conv_nth)
  from i(1) have "i \<in> set ?ord"
    using mset_word_order_of [of ws flags, THEN arg_cong, of set_mset] by simp
  then obtain j where "j < length ?ord" "?ord ! j = i"
    by (auto simp: in_set_conv_nth)
  with i(2) have "\<exists>j. 0 \<le> j \<and> j < length ?ord \<and>
      generate_candidates rows cols ?g (ws ! (?ord ! j)) \<noteq> []"
    by auto
  from search_places_one(1) [OF time contract this, of "initial_state (length ws)"]
  have "1 \<le> num_placed (search_best srt clk ws flags rows cols lim)"
    by (simp add: search_best_def Let_def initial_state_def)
  with best_counts_search_best [of rows cols srt clk ws flags lim] show ?thesis
    by (auto simp: best_counts_def)
qed

lemma generateWordSearch_returns_given_time:
  assumes "std_sort_contract srt" and "\<forall>n. clk n < lim"
    and "0 < rows" and "length ws \<le> length flags"
    and "\<exists>w \<in> set ws. w \<noteq> [] \<and> int (length w) \<le> cols"
  shows "\<exists>res. generateWordSearch srt clk dist ws flags rows cols lim = Inr res \<and>
               placements res \<noteq> []"
proof -
  from assms(5) obtain w where w: "w \<in> set ws" "w \<noteq> []" "int (length w) \<le> cols"
    by blast
  then have cols: "0 \<le> cols" by (cases w) simp_all
  from w blank_grid_fits [OF assms(3) w(2,3)]
  have some: "placements (search_best srt clk ws flags rows cols lim) \<noteq> []"
    by (intro search_best_places_one assms(1,2)) blast
  from generateWordSearch_returns [OF assms(1) _ cols assms(4) some, of dist] assms(3)
  obtain res where res: "generateWordSearch srt clk dist ws flags rows cols lim = Inr res"
    by auto
  with some generateWordSearch_Inr(5) [OF res] show ?thesis by simp
qed

text \<open>
  C9. With the time limit 0 and a clock that reads 0, the search returns at its first
  deadline check and the recorded best is the initial one: no word placed, no placement,
  and the empty grid vector. \<open>generateWordSearch\<close> then reads
  \<^verbatim>\<open>best_result.grid[0][0]\<close> in its fill loop, outside that empty vector: on a 3 x 3 grid it
  returns no result.
\<close>

theorem time_limit_zero_no_result:
  "search_best insertion_sort (\<lambda>_. 0) [''CAT''] [True] 3 3 0 = initial_result \<and>
   num_placed initial_result = 0 \<and> placements initial_result = [] \<and> grid initial_result = [] \<and>
   generateWordSearch insertion_sort (\<lambda>_. 0) (\<lambda>_. 0) [''CAT''] [True] 3 3 0 = Inl OutOfRange"
proof -
  have "search_best insertion_sort (\<lambda>_. 0) [''CAT''] [True] 3 3 0 = initial_result"
    by (rule search_best_timed_out) simp
  moreover have "generateWordSearch insertion_sort (\<lambda>_. 0) (\<lambda>_. 0) [''CAT''] [True] 3 3 0 =
                 Inl OutOfRange"
    by (rule generateWordSearch_timed_out_at_once) simp_all
  ultimately show ?thesis
    by (simp add: initial_result_def)
qed

end
